theory Spec2Isabelle
  imports Complex_Main "HOL-Library.Sublist"
begin

section \<open>Python values used by matrix\_hebrew.py\<close>

text \<open>
  Exceptions the modelled code can raise. \<open>AttributeError\<close> is the lookup of a module
  attribute that does not exist, \<open>ValueError\<close> is \<open>chr\<close> outside the code-point range.
\<close>

datatype error = IndexError | ZeroDivisionError | AttributeError | ValueError

text \<open>A Python \<open>str\<close> is a sequence of Unicode code points; \<open>len\<close> counts code points.\<close>

type_synonym glyph = nat
type_synonym pystr = "glyph list"

subsection \<open>Floats: IEEE binary64, round to nearest, ties to even\<close>

text \<open>
  A finite Python float is modelled by the rational number it denotes. Every arithmetic
  operation computes the exact rational result and rounds it with \<open>fl\<close> to the nearest
  binary64 value (53 significant bits, least exponent \<open>-1022\<close>, subnormals included).
  Overflow to infinity (results of magnitude \<open>2 ^ 1024\<close> and above) is outside the model:
  positions, angles and delays of this program stay many orders of magnitude below it.
\<close>

function ilog2 :: "rat \<Rightarrow> int" where
  "ilog2 q = (if q \<le> 0 then 0
              else if 2 \<le> q then ilog2 (q / 2) + 1
              else if q < 1 then ilog2 (q * 2) - 1
              else 0)"
  by pat_completeness auto
termination
proof (relation "measure (\<lambda>q. nat \<lceil>q\<rceil> + 2 * nat \<lceil>1 / q\<rceil>)")
  show "wf (measure (\<lambda>q::rat. nat \<lceil>q\<rceil> + 2 * nat \<lceil>1 / q\<rceil>))" by simp
next
  fix q :: rat assume a: "\<not> q \<le> 0" "2 \<le> q"
  have "q / 2 \<le> q - 1" using a by simp
  then have "\<lceil>q / 2\<rceil> \<le> \<lceil>q - 1\<rceil>" by (rule ceiling_mono)
  then have 1: "\<lceil>q / 2\<rceil> < \<lceil>q\<rceil>" by simp
  have 2: "0 < \<lceil>q\<rceil>" using a by (simp add: ceiling_less_iff less_ceiling_iff)
  have "0 < 1 / q" "1 / q \<le> 1" "0 < 1 / (q / 2)" "1 / (q / 2) \<le> 1"
    using a by (simp_all add: field_simps)
  then have 3: "\<lceil>1 / q\<rceil> = 1" "\<lceil>1 / (q / 2)\<rceil> = 1" by (simp_all add: ceiling_eq_iff)
  show "(q / 2, q) \<in> measure (\<lambda>q. nat \<lceil>q\<rceil> + 2 * nat \<lceil>1 / q\<rceil>)"
    using 1 2 3 by simp
next
  fix q :: rat assume a: "\<not> q \<le> 0" "\<not> 2 \<le> q" "q < 1"
  define t where "t = 1 / q"
  have t: "1 < t" "1 / (q * 2) = t / 2" using a by (simp_all add: t_def field_simps)
  have 1: "\<lceil>q\<rceil> = 1" using a by (simp add: ceiling_eq_iff)
  have "0 < q * 2" "q * 2 \<le> 2" using a by simp_all
  then have 2: "\<lceil>q * 2\<rceil> \<le> 2" by (simp add: ceiling_le_iff)
  have t2: "2 \<le> \<lceil>t\<rceil>" using t(1) by (simp add: le_ceiling_iff)
  have 3: "\<lceil>t / 2\<rceil> \<le> \<lceil>t\<rceil> - 1"
  proof (cases "t \<le> 2")
    case True
    then have "\<lceil>t / 2\<rceil> \<le> 1" by (simp add: ceiling_le_iff)
    then show ?thesis using t2 by linarith
  next
    case False
    then have "t / 2 \<le> t - 1" by simp
    then have "\<lceil>t / 2\<rceil> \<le> \<lceil>t - 1\<rceil>" by (rule ceiling_mono)
    then show ?thesis by (simp only: ceiling_diff_one)
  qed
  have 4: "0 < \<lceil>t / 2\<rceil>" using t(1) by (simp add: less_ceiling_iff)
  have "nat \<lceil>q * 2\<rceil> + 2 * nat \<lceil>1 / (q * 2)\<rceil> < nat \<lceil>q\<rceil> + 2 * nat \<lceil>1 / q\<rceil>"
    unfolding t(2) 1 t_def[symmetric] using 2 3 4 t2 by linarith
  then show "(q * 2, q) \<in> measure (\<lambda>q. nat \<lceil>q\<rceil> + 2 * nat \<lceil>1 / q\<rceil>)"
    by simp
qed

declare ilog2.simps [simp del]

definition round_half_even :: "rat \<Rightarrow> int" where
  "round_half_even x =
     (let f = \<lfloor>x\<rfloor>; d = x - of_int f
      in if d < 1 / 2 then f else if 1 / 2 < d then f + 1 else if even f then f else f + 1)"

definition fl :: "rat \<Rightarrow> rat" where
  "fl q = (if q = 0 then 0
           else let e = max (ilog2 \<bar>q\<bar>) (- 1022); u = 2 powi (e - 52)
                in of_int (round_half_even (q / u)) * u)"

text \<open>The finite binary64 values: a signed 53-bit significand times a power of two.\<close>

definition is_double :: "rat \<Rightarrow> bool" where
  "is_double r \<longleftrightarrow> (\<exists>m k. r = of_int m * 2 powi k \<and> \<bar>m\<bar> \<le> 2 ^ 53 \<and> - 1074 \<le> k)"

text \<open>A float literal of the source denotes the binary64 value nearest to its decimal.\<close>

definition py_float :: "rat \<Rightarrow> rat" where
  "py_float q = fl q"

definition fadd :: "rat \<Rightarrow> rat \<Rightarrow> rat" where
  "fadd a b = fl (a + b)"

definition fsub :: "rat \<Rightarrow> rat \<Rightarrow> rat" where
  "fsub a b = fl (a - b)"

definition fmul :: "rat \<Rightarrow> rat \<Rightarrow> rat" where
  "fmul a b = fl (a * b)"

definition fdiv :: "rat \<Rightarrow> rat \<Rightarrow> error + rat" where
  "fdiv a b = (if b = 0 then Inl ZeroDivisionError else Inr (fl (a / b)))"

text \<open>\<open>int(x)\<close> of a float truncates toward zero.\<close>

definition int_trunc :: "rat \<Rightarrow> int" where
  "int_trunc q = (if 0 \<le> q then \<lfloor>q\<rfloor> else \<lceil>q\<rceil>)"

subsection \<open>Lists and strings\<close>

text \<open>Subscription \<open>xs[i]\<close>: negative indices count from the end, out of range raises.\<close>

definition py_index :: "'a list \<Rightarrow> int \<Rightarrow> error + 'a" where
  "py_index xs i =
     (if 0 \<le> i \<and> i < int (length xs) then Inr (xs ! nat i)
      else if i < 0 \<and> - int (length xs) \<le> i then Inr (xs ! nat (int (length xs) + i))
      else Inl IndexError)"

fun startswith :: "pystr \<Rightarrow> pystr \<Rightarrow> bool" where
  "startswith [] s = True"
| "startswith (a # w) [] = False"
| "startswith (a # w) (b # s) = (a = b \<and> startswith w s)"

text \<open>\<open>w in s\<close> on strings: \<open>w\<close> occurs in \<open>s\<close> as a contiguous substring.\<close>

fun substring_in :: "pystr \<Rightarrow> pystr \<Rightarrow> bool" where
  "substring_in w [] = (w = [])"
| "substring_in w (c # s) = (startswith w (c # s) \<or> substring_in w s)"

text \<open>Decimal rendering of an integer inside an f-string.\<close>

function str_nat :: "nat \<Rightarrow> pystr" where
  "str_nat n = (if n < 10 then [48 + n] else str_nat (n div 10) @ [48 + n mod 10])"
  by pat_completeness auto
termination
  by (relation "measure id") auto

declare str_nat.simps [simp del]

definition str_int :: "int \<Rightarrow> pystr" where
  "str_int i = (if i < 0 then 45 # str_nat (nat (- i)) else str_nat (nat i))"

definition lit :: "string \<Rightarrow> pystr" where
  "lit s = map of_char s"

section \<open>Configuration\<close>

definition MIN_LEN :: nat where "MIN_LEN = 10"
definition MAX_LEN :: nat where "MAX_LEN = 13"
definition TARGET_COUNT :: nat where "TARGET_COUNT = 10"

text \<open>The 22 Hebrew letters alef to tav (final forms left out), as code points.\<close>

definition ALPHABET :: "glyph list" where
  "ALPHABET = [1488, 1489, 1490, 1491, 1492, 1493, 1494, 1495, 1496, 1497, 1499,
               1500, 1502, 1504, 1505, 1506, 1508, 1510, 1511, 1512, 1513, 1514]"

definition SPINNER :: "pystr list" where
  "SPINNER = [lit ''|'', lit ''/'', lit ''-'', [92]]"

definition SPIN_SPEED :: int where "SPIN_SPEED = 6"

definition layer_speeds :: "rat list" where
  "layer_speeds = [py_float (4 / 10), py_float (8 / 10), py_float (12 / 10), py_float (16 / 10)]"

definition layer_colors :: "nat list list" where
  "layer_colors = [[1, 2, 3, 4, 5], [2, 3, 4, 5, 1], [3, 4, 5, 1, 2], [4, 5, 1, 2, 3]]"

section \<open>Terminal and library effects\<close>

text \<open>
  Calls into curses, logging and time, in the order the program makes them. \<open>AddStr\<close> is
  \<open>stdscr.addstr(row, col, text, color_pair(p) | A_BOLD)\<close>; whether the terminal shows the
  text or rejects the position is the terminal's business.
\<close>

datatype effect =
    Getch
  | Erase
  | AddStr int int pystr nat
  | Refresh
  | Beep
  | LogInfo pystr
  | Sleep rat

text \<open>
  What the \<open>curses\<close> module offers to \<open>Cluster.draw\<close>: the integers \<open>COLS\<close> and \<open>LINES\<close>, and
  the attributes \<open>cos\<close> and \<open>sin\<close> the method looks up (\<open>None\<close>: the module has no such
  attribute). Python's curses module has neither \<open>cos\<close> nor \<open>sin\<close>.
\<close>

record curses_mod =
  COLS :: int
  LINES :: int
  curses_cos :: "(rat \<Rightarrow> rat) option"
  curses_sin :: "(rat \<Rightarrow> rat) option"

definition stdlib_curses :: "int \<Rightarrow> int \<Rightarrow> curses_mod" where
  "stdlib_curses c l = \<lparr>COLS = c, LINES = l, curses_cos = None, curses_sin = None\<rparr>"

section \<open>Drop\<close>

type_synonym trail_entry = "int \<times> glyph \<times> int"

record drop =
  drop_x :: int
  drop_layer :: int
  drop_y :: rat
  drop_speed :: rat
  drop_char :: glyph
  drop_trail :: "trail_entry list"
  drop_colors :: "nat list"

text \<open>
  \<open>Drop.__init__\<close>. The two random draws of the constructor are arguments: \<open>y0\<close> is the
  value of \<open>random.uniform(-max_row, 0)\<close> and \<open>ch\<close> that of \<open>random.choice(ALPHABET)\<close>.
\<close>

definition Drop_init :: "int \<Rightarrow> int \<Rightarrow> int \<Rightarrow> nat list \<Rightarrow> rat \<Rightarrow> glyph \<Rightarrow> error + drop" where
  "Drop_init x layer max_row colors y0 ch =
     (case py_index layer_speeds layer of
        Inl e \<Rightarrow> Inl e
      | Inr sp \<Rightarrow> Inr \<lparr>drop_x = x, drop_layer = layer, drop_y = y0, drop_speed = sp,
                       drop_char = ch, drop_trail = [], drop_colors = colors\<rparr>)"

text \<open>The loop of \<open>Drop.update\<close> that ages and prunes the trail.\<close>

fun age_and_prune :: "nat \<Rightarrow> trail_entry list \<Rightarrow> trail_entry list" where
  "age_and_prune n [] = []"
| "age_and_prune n ((ty, ch, age) # es) =
     (if age < int n then (ty, ch, age + 1) # age_and_prune n es else age_and_prune n es)"

text \<open>
  \<open>Drop.update\<close>, returning the updated drop and the method's result. \<open>morph\<close> is the
  random glyph replacement of this call: \<open>None\<close> when \<open>random.random() < 0.02\<close> fails.
\<close>

definition Drop_update :: "drop \<Rightarrow> int \<Rightarrow> glyph option \<Rightarrow> drop \<times> bool" where
  "Drop_update d max_row morph =
     (let y' = fadd (drop_y d) (drop_speed d);
          t = (int_trunc y', drop_char d, 0) # drop_trail d;
          new_trail = age_and_prune (length (drop_colors d)) t;
          c' = (case morph of None \<Rightarrow> drop_char d | Some c \<Rightarrow> c)
      in (d\<lparr>drop_y := y', drop_trail := new_trail, drop_char := c'\<rparr>,
          y' < of_int (max_row + int (length (drop_colors d)))))"

definition color_idx :: "nat list \<Rightarrow> int \<Rightarrow> int" where
  "color_idx colors age = min age (int (length colors) - 1)"

text \<open>
  \<open>Drop.draw\<close>: one \<open>addstr\<close> per trail entry; \<open>curses.error\<close> is caught, a failing
  subscription of the gradient is not.
\<close>

fun draw_trail :: "int \<Rightarrow> nat list \<Rightarrow> trail_entry list \<Rightarrow> error + effect list" where
  "draw_trail x colors [] = Inr []"
| "draw_trail x colors ((ty, ch, age) # es) =
     (case py_index colors (color_idx colors age) of
        Inl e \<Rightarrow> Inl e
      | Inr p \<Rightarrow> (case draw_trail x colors es of
                    Inl e \<Rightarrow> Inl e
                  | Inr calls \<Rightarrow> Inr (AddStr ty x [ch] p # calls)))"

definition Drop_draw :: "drop \<Rightarrow> int \<Rightarrow> error + effect list" where
  "Drop_draw d max_col = draw_trail (drop_x d) (drop_colors d) (drop_trail d)"

text \<open>A drop driven through several updates, one random morph draw per update.\<close>

fun Drop_updates :: "drop \<Rightarrow> int \<Rightarrow> glyph option list \<Rightarrow> drop" where
  "Drop_updates d max_row [] = d"
| "Drop_updates d max_row (m # ms) = Drop_updates (fst (Drop_update d max_row m)) max_row ms"

text \<open>The probe string \<open>''.join([t[1] for t in d.trail])\<close>.\<close>

definition probe :: "drop \<Rightarrow> pystr" where
  "probe d = map (\<lambda>(ty, ch, age). ch) (drop_trail d)"

section \<open>Cluster\<close>

record letter =
  l_ch :: glyph
  l_angle :: rat
  l_rad :: rat

record cluster =
  cluster_letters :: "letter list"
  cluster_lifespan :: int
  cluster_age :: int
  cluster_colors :: "nat list"
  cluster_cx :: int
  cluster_cy :: int

text \<open>
  \<open>Cluster.__init__\<close>: \<open>angle_step = 2*3.1415/len(word)\<close> raises on the empty word; the
  letters are those of \<open>enumerate(word)\<close>.
\<close>

definition Cluster_init :: "pystr \<Rightarrow> int \<Rightarrow> int \<Rightarrow> int \<Rightarrow> nat list \<Rightarrow> error + cluster" where
  "Cluster_init word center_x center_y lifespan colors =
     (case fdiv (fmul 2 (py_float (31415 / 10000))) (of_nat (length word)) of
        Inl e \<Rightarrow> Inl e
      | Inr angle_step \<Rightarrow>
          Inr \<lparr>cluster_letters =
                 map (\<lambda>(i, ch). \<lparr>l_ch = ch, l_angle = fmul (of_nat i) angle_step, l_rad = 0\<rparr>)
                   (enumerate 0 word),
               cluster_lifespan = lifespan, cluster_age = 0, cluster_colors = colors,
               cluster_cx = center_x, cluster_cy = center_y\<rparr>)"

text \<open>\<open>Cluster.update\<close>, returning the updated cluster and the method's result.\<close>

definition Cluster_update :: "cluster \<Rightarrow> cluster \<times> bool" where
  "Cluster_update c =
     (let age' = cluster_age c + 1;
          ls = map (\<lambda>l. l\<lparr>l_rad := fadd (l_rad l) (py_float (3 / 10)),
                           l_angle := fadd (l_angle l) (py_float (1 / 10))\<rparr>)
                 (cluster_letters c)
      in (c\<lparr>cluster_age := age', cluster_letters := ls\<rparr>, age' < cluster_lifespan c))"

text \<open>
  The value a call of \<open>Cluster.draw\<close> evaluates to. The method has no \<open>return\<close>
  statement, so the value is always \<open>None\<close>, which is false in a condition.
\<close>

datatype pyret = PyNone

fun truthy :: "pyret \<Rightarrow> bool" where
  "truthy PyNone = False"

text \<open>
  \<open>Cluster.draw\<close>. The coordinates are computed outside the \<open>try\<close>, so a missing
  \<open>curses.cos\<close> or \<open>curses.sin\<close> propagates; the bare \<open>except\<close> swallows whatever the
  subscription of the gradient or \<open>addstr\<close> raises.
\<close>

fun draw_letters :: "curses_mod \<Rightarrow> cluster \<Rightarrow> letter list \<Rightarrow> error + effect list" where
  "draw_letters cm c [] = Inr []"
| "draw_letters cm c (l # ls) =
     (case curses_cos cm of
        None \<Rightarrow> Inl AttributeError
      | Some cosf \<Rightarrow>
          (let x = int_trunc (fadd (of_int (cluster_cx c))
                     (fmul (fl (fmul (l_rad l) (of_int (COLS cm)) / 100)) (cosf (l_angle l))))
           in case curses_sin cm of
                None \<Rightarrow> Inl AttributeError
              | Some sinf \<Rightarrow>
                  (let y = int_trunc (fadd (of_int (cluster_cy c))
                             (fmul (fl (fmul (l_rad l) (of_int (LINES cm)) / 100)) (sinf (l_angle l))));
                       idx = min (cluster_age c div 3) (int (length (cluster_colors c)) - 1);
                       call = (case py_index (cluster_colors c) idx of
                                 Inl e \<Rightarrow> []
                               | Inr p \<Rightarrow> [AddStr y x [l_ch l] p])
                   in case draw_letters cm c ls of
                        Inl e \<Rightarrow> Inl e
                      | Inr calls \<Rightarrow> Inr (call @ calls))))"

definition Cluster_draw :: "curses_mod \<Rightarrow> cluster \<Rightarrow> error + pyret \<times> effect list" where
  "Cluster_draw cm c =
     (case draw_letters cm c (cluster_letters c) of
        Inl e \<Rightarrow> Inl e
      | Inr calls \<Rightarrow> Inr (PyNone, calls))"

section \<open>The frame loop of main\<close>

text \<open>
  The detection loop \<open>for w in WORD_LIST\<close> run for a retired drop, on the probe string of
  its trail. There is no \<open>break\<close>: the loop goes through the whole dictionary.
\<close>

fun detect :: "pystr list \<Rightarrow> pystr \<Rightarrow> int \<Rightarrow> int \<Rightarrow> pystr list \<Rightarrow> cluster list
    \<Rightarrow> error + pystr list \<times> cluster list \<times> effect list" where
  "detect [] pr cols rows found clusters = Inr (found, clusters, [])"
| "detect (w # ws) pr cols rows found clusters =
     (if substring_in w pr \<and> w \<notin> set found then
        (case Cluster_init w (cols div 2) (rows div 2) 40 (layer_colors ! 0) of
           Inl e \<Rightarrow> Inl e
         | Inr c \<Rightarrow>
             (case detect ws pr cols rows (found @ [w]) (clusters @ [c]) of
                Inl e \<Rightarrow> Inl e
              | Inr (f, cl, effs) \<Rightarrow> Inr (f, cl, LogInfo w # Beep # effs)))
      else detect ws pr cols rows found clusters)"

text \<open>
  The loop \<open>for d in drops\<close>: a drop that is still alive is drawn and kept, a retired one
  is scanned for words. \<open>ms\<close> holds the random morph draws, one per drop.
\<close>

fun drops_loop :: "pystr list \<Rightarrow> int \<Rightarrow> int \<Rightarrow> drop list \<Rightarrow> glyph option list
    \<Rightarrow> pystr list \<Rightarrow> cluster list
    \<Rightarrow> error + drop list \<times> pystr list \<times> cluster list \<times> effect list" where
  "drops_loop wl rows cols [] ms found clusters = Inr ([], found, clusters, [])"
| "drops_loop wl rows cols (d # ds) ms found clusters =
     (let (d', alive) = Drop_update d rows (case ms of [] \<Rightarrow> None | m # ms' \<Rightarrow> m) in
      if alive then
        (case Drop_draw d' cols of
           Inl e \<Rightarrow> Inl e
         | Inr calls \<Rightarrow>
             (case drops_loop wl rows cols ds (tl ms) found clusters of
                Inl e \<Rightarrow> Inl e
              | Inr (nd, f, cl, effs) \<Rightarrow> Inr (d' # nd, f, cl, calls @ effs)))
      else
        (case detect wl (probe d') cols rows found clusters of
           Inl e \<Rightarrow> Inl e
         | Inr (f1, cl1, effs1) \<Rightarrow>
             (case drops_loop wl rows cols ds (tl ms) f1 cl1 of
                Inl e \<Rightarrow> Inl e
              | Inr (nd, f, cl, effs) \<Rightarrow> Inr (nd, f, cl, effs1 @ effs))))"

text \<open>
  The comprehension \<open>[c for c in clusters if c.update() and c.draw(stdscr)]\<close>: a cluster
  is kept when \<open>update\<close> returns true and the value of \<open>draw\<close> is true as well.
\<close>

fun clusters_step :: "curses_mod \<Rightarrow> cluster list \<Rightarrow> error + cluster list \<times> effect list" where
  "clusters_step cm [] = Inr ([], [])"
| "clusters_step cm (c # cs) =
     (let (c', alive) = Cluster_update c in
      if alive then
        (case Cluster_draw cm c' of
           Inl e \<Rightarrow> Inl e
         | Inr (r, calls) \<Rightarrow>
             (case clusters_step cm cs of
                Inl e \<Rightarrow> Inl e
              | Inr (kept, effs) \<Rightarrow> Inr ((if truthy r then [c'] else []) @ kept, calls @ effs)))
      else clusters_step cm cs)"

record state =
  drops :: "drop list"
  clusters :: "cluster list"
  found :: "pystr list"
  start :: rat
  frame :: int
  spin :: int
  delay :: rat
  paused :: bool

text \<open>The random draws of \<open>Drop(random.randrange(cols), random.randrange(4), rows,
  layer_colors[random.randrange(4)])\<close> and of its constructor.\<close>

record spawn =
  sp_x :: int
  sp_layer :: int
  sp_grad :: int
  sp_y :: rat
  sp_char :: glyph

definition spawn_drop :: "int \<Rightarrow> spawn \<Rightarrow> error + drop" where
  "spawn_drop rows sp =
     (case py_index layer_colors (sp_grad sp) of
        Inl e \<Rightarrow> Inl e
      | Inr colors \<Rightarrow> Drop_init (sp_x sp) (sp_layer sp) rows colors (sp_y sp) (sp_char sp))"

text \<open>
  What one iteration of the loop reads from outside: the result of \<open>stdscr.getch()\<close>
  (\<open>-1\<close>: no key), the clock, the spawn decision (\<open>None\<close> when \<open>random.random() < 0.4\<close>
  fails) and the morph draws of the drops.
\<close>

record tick_in =
  key :: int
  now :: rat
  new_drop :: "spawn option"
  morphs :: "glyph option list"

text \<open>
  The key dispatch of lines 132 to 140; \<open>None\<close> is the \<open>break\<close> of the quit command.
  The codes are \<open>p\<close> 112, \<open>s\<close> 115, \<open>v\<close> 118, \<open>r\<close> 114, \<open>+\<close> 43, \<open>-\<close> 45, \<open>q\<close> 113.
\<close>

definition handle_key :: "int \<Rightarrow> state \<Rightarrow> error + state option" where
  "handle_key ch s =
     (if ch = - 1 then Inr (Some s)
      else if ch < 0 \<or> 1114111 < ch then Inl ValueError
      else if ch = 112 then Inr (Some (s\<lparr>paused := \<not> paused s\<rparr>))
      else if ch = 115 then Inr (Some s)
      else if ch = 118 then Inr (Some s)
      else if ch = 114 then Inr (Some s)
      else if ch = 43 then
        Inr (Some (s\<lparr>delay := max (py_float (1 / 100)) (fsub (delay s) (py_float (1 / 100)))\<rparr>))
      else if ch = 45 then Inr (Some (s\<lparr>delay := fadd (delay s) (py_float (1 / 100))\<rparr>))
      else if ch = 113 then Inr None
      else Inr (Some s))"

text \<open>The HUD line, from \<open>elapsed\<close> and \<open>wps\<close> as computed at the top of the iteration.\<close>

definition hud_text :: "rat \<Rightarrow> rat \<Rightarrow> nat \<Rightarrow> nat \<Rightarrow> pystr" where
  "hud_text elapsed wps nd nc =
     lit ''Time:'' @ str_int (int_trunc elapsed) @ lit ''s WPS:'' @ str_int (int_trunc wps)
       @ lit '' Drops:'' @ str_nat nd @ lit '' Clusters:'' @ str_nat nc"

text \<open>
  The body of \<open>if not paused:\<close> up to and including \<open>time.sleep(delay)\<close>. \<open>height\<close> and
  \<open>width\<close> are the result of \<open>stdscr.getmaxyx()\<close>; \<open>wl\<close> is \<open>WORD_LIST\<close>.
\<close>

definition update_phase :: "curses_mod \<Rightarrow> pystr list \<Rightarrow> int \<Rightarrow> int \<Rightarrow> state \<Rightarrow> tick_in
    \<Rightarrow> error + state \<times> effect list" where
  "update_phase cm wl height width s inp =
     (let rows = height - 1; cols = width;
          elapsed = fsub (now inp) (start s);
          wps = (if 0 < elapsed then fl (of_nat (length (found s)) / elapsed) else 0)
      in case (case new_drop inp of
                 None \<Rightarrow> Inr (drops s)
               | Some sp \<Rightarrow> (case spawn_drop rows sp of
                               Inl e \<Rightarrow> Inl e
                             | Inr d \<Rightarrow> Inr (drops s @ [d]))) of
           Inl e \<Rightarrow> Inl e
         | Inr ds \<Rightarrow>
             (case drops_loop wl rows cols ds (morphs inp) (found s) (clusters s) of
                Inl e \<Rightarrow> Inl e
              | Inr (nd, f, cl, effs1) \<Rightarrow>
                  (case clusters_step cm cl of
                     Inl e \<Rightarrow> Inl e
                   | Inr (cl', effs2) \<Rightarrow>
                       (let spin' = (if frame s mod SPIN_SPEED = 0
                                     then (spin s + 1) mod int (length SPINNER) else spin s)
                        in case py_index SPINNER spin' of
                             Inl e \<Rightarrow> Inl e
                           | Inr sp_text \<Rightarrow>
                               Inr (s\<lparr>drops := nd, clusters := cl', found := f, spin := spin'\<rparr>,
                                    [Erase] @ effs1 @ effs2 @
                                    [AddStr 0 (cols - 2) sp_text 5,
                                     AddStr (height - 1) 0
                                       (take (nat cols) (hud_text elapsed wps (length nd) (length cl'))) 5,
                                     Refresh, Sleep (delay s)])))))"

text \<open>
  How one iteration of \<open>while True\<close> ends: the loop goes on, it is left by a \<open>break\<close> for
  the end screen, or an exception leaves \<open>main\<close>.
\<close>

datatype outcome =
    Continue state "effect list"
  | EndScreen state "effect list"
  | Raised error

definition tick :: "curses_mod \<Rightarrow> pystr list \<Rightarrow> int \<Rightarrow> int \<Rightarrow> state \<Rightarrow> tick_in \<Rightarrow> outcome" where
  "tick cm wl height width s inp =
     (let s1 = s\<lparr>frame := frame s + 1\<rparr> in
      case handle_key (key inp) s1 of
        Inl e \<Rightarrow> Raised e
      | Inr None \<Rightarrow> EndScreen s1 [Getch]
      | Inr (Some s2) \<Rightarrow>
          if \<not> paused s2 then
            (case update_phase cm wl height width s2 inp of
               Inl e \<Rightarrow> Raised e
             | Inr (s3, effs) \<Rightarrow>
                 if TARGET_COUNT \<le> length (found s3) then EndScreen s3 (Getch # effs)
                 else Continue s3 (Getch # effs))
          else Continue s2 [Getch])"

text \<open>The loop over a finite supply of inputs, with the effects of all its iterations.\<close>

fun run :: "curses_mod \<Rightarrow> pystr list \<Rightarrow> int \<Rightarrow> int \<Rightarrow> state \<Rightarrow> tick_in list \<Rightarrow> outcome" where
  "run cm wl height width s [] = Continue s []"
| "run cm wl height width s (i # is) =
     (case tick cm wl height width s i of
        Continue s' effs \<Rightarrow>
          (case run cm wl height width s' is of
             Continue s'' effs' \<Rightarrow> Continue s'' (effs @ effs')
           | EndScreen s'' effs' \<Rightarrow> EndScreen s'' (effs @ effs')
           | Raised e \<Rightarrow> Raised e)
      | EndScreen s' effs \<Rightarrow> EndScreen s' effs
      | Raised e \<Rightarrow> Raised e)"

text \<open>The initial drops, \<open>cols // 8\<close> of them, \<open>sp i\<close> being the random draws of the \<open>i\<close>-th.\<close>

fun spawn_all :: "int \<Rightarrow> spawn list \<Rightarrow> error + drop list" where
  "spawn_all rows [] = Inr []"
| "spawn_all rows (sp # sps) =
     (case spawn_drop rows sp of
        Inl e \<Rightarrow> Inl e
      | Inr d \<Rightarrow> (case spawn_all rows sps of Inl e \<Rightarrow> Inl e | Inr ds \<Rightarrow> Inr (d # ds)))"

definition main_init :: "int \<Rightarrow> int \<Rightarrow> rat \<Rightarrow> (nat \<Rightarrow> spawn) \<Rightarrow> error + state" where
  "main_init height width t0 sp =
     (case spawn_all (height - 1) (map sp [0..<nat (width div 8)]) of
        Inl e \<Rightarrow> Inl e
      | Inr ds \<Rightarrow> Inr \<lparr>drops = ds, clusters = [], found = [], start = t0, frame = 0, spin = 0,
                       delay = py_float (5 / 100), paused = False\<rparr>)"

section \<open>Invariants used in the proofs\<close>

text \<open>
  The trail of a drop between updates: the ages are pairwise different and lie between
  1 and the palette depth.
\<close>

definition trail_ok :: "nat \<Rightarrow> trail_entry list \<Rightarrow> bool" where
  "trail_ok n es \<longleftrightarrow>
     distinct (map (snd \<circ> snd) es) \<and> (\<forall>a \<in> set (map (snd \<circ> snd) es). 1 \<le> a \<and> a \<le> int n)"

text \<open>The word a cluster spells, and the words logged by a sequence of effects.\<close>

definition spells :: "cluster \<Rightarrow> pystr" where
  "spells c = map l_ch (cluster_letters c)"

fun logged :: "effect list \<Rightarrow> pystr list" where
  "logged [] = []"
| "logged (LogInfo w # es) = w # logged es"
| "logged (e # es) = logged es"
section \<open>Properties of the float model\<close>

lemma ilog2_bounds: "0 < q \<Longrightarrow> 2 powi (ilog2 q) \<le> q \<and> q < 2 powi (ilog2 q + 1)"
proof (induction q rule: ilog2.induct)
  case (1 q)
  have pos: "\<not> q \<le> 0" using "1.prems" by simp
  consider (big) "2 \<le> q" | (small) "q < 1" | (mid) "1 \<le> q" "q < 2" by linarith
  then show ?case
  proof cases
    case big
    then have e: "ilog2 q = ilog2 (q / 2) + 1" using pos by (subst ilog2.simps) simp
    have "2 powi (ilog2 (q / 2)) \<le> q / 2 \<and> q / 2 < 2 powi (ilog2 (q / 2) + 1)"
      using "1.IH"(1)[OF pos big] "1.prems" by simp
    then show ?thesis unfolding e by (simp add: power_int_add)
  next
    case small
    then have n2: "\<not> 2 \<le> q" by simp
    have e: "ilog2 q = ilog2 (q * 2) - 1" using pos small by (subst ilog2.simps) simp
    have "2 powi (ilog2 (q * 2)) \<le> q * 2 \<and> q * 2 < 2 powi (ilog2 (q * 2) + 1)"
      using "1.IH"(2)[OF pos n2 small] "1.prems" by simp
    then show ?thesis unfolding e by (simp add: power_int_add power_int_diff)
  next
    case mid
    then have e: "ilog2 q = 0" using pos by (subst ilog2.simps) simp
    show ?thesis unfolding e using mid by simp
  qed
qed

lemma round_half_even_floor: "\<lfloor>x\<rfloor> \<le> round_half_even x"
  unfolding round_half_even_def Let_def by simp

lemma round_half_even_ge: "of_int n \<le> x \<Longrightarrow> n \<le> round_half_even x"
proof -
  assume "of_int n \<le> x"
  then have "n \<le> \<lfloor>x\<rfloor>" by (simp add: le_floor_iff)
  then show ?thesis using round_half_even_floor [of x] by linarith
qed

lemma round_half_even_ceiling: "round_half_even x \<le> \<lceil>x\<rceil>"
proof (cases "x = of_int \<lfloor>x\<rfloor>")
  case True
  then have "x - of_int \<lfloor>x\<rfloor> < 1 / 2" by simp
  then have "round_half_even x = \<lfloor>x\<rfloor>" unfolding round_half_even_def Let_def by simp
  then show ?thesis by simp
next
  case False
  then have "\<lceil>x\<rceil> = \<lfloor>x\<rfloor> + 1" by (metis ceiling_altdef)
  moreover have "round_half_even x \<le> \<lfloor>x\<rfloor> + 1"
    unfolding round_half_even_def Let_def by simp
  ultimately show ?thesis by simp
qed

lemma round_half_even_le: "x \<le> of_int n \<Longrightarrow> round_half_even x \<le> n"
proof -
  assume "x \<le> of_int n"
  then have "\<lceil>x\<rceil> \<le> n" by (simp add: ceiling_le_iff)
  then show ?thesis using round_half_even_ceiling [of x] by linarith
qed

lemma fl_nonzero:
  assumes "q \<noteq> 0"
  shows "fl q = of_int (round_half_even (q / 2 powi (max (ilog2 \<bar>q\<bar>) (- 1022) - 52)))
                  * 2 powi (max (ilog2 \<bar>q\<bar>) (- 1022) - 52)"
  using assms by (simp add: fl_def Let_def)

text \<open>Every result of rounding is a binary64 value.\<close>

lemma is_double_fl: "is_double (fl q)"
proof (cases "q = 0")
  case True
  then have "fl q = of_int 0 * 2 powi 0" by (simp add: fl_def)
  then show ?thesis unfolding is_double_def
    by (metis abs_zero zero_le_numeral zero_le_power neg_numeral_le_zero)
next
  case False
  define e where "e = max (ilog2 \<bar>q\<bar>) (- 1022)"
  define u :: rat where "u = 2 powi (e - 52)"
  define n where "n = round_half_even (q / u)"
  have u: "0 < u" by (simp add: u_def)
  have flq: "fl q = of_int n * u" using fl_nonzero [OF False] by (simp add: e_def u_def n_def)
  have "\<bar>q\<bar> < 2 powi (ilog2 \<bar>q\<bar> + 1)" using ilog2_bounds [of "\<bar>q\<bar>"] False by simp
  also have "\<dots> \<le> 2 powi (e + 1)" by (rule power_int_increasing) (simp_all add: e_def)
  also have "\<dots> = 2 ^ 53 * u" by (simp add: u_def power_int_add power_int_diff)
  finally have b: "\<bar>q\<bar> < 2 ^ 53 * u" .
  then have "q < 2 ^ 53 * u" "- (2 ^ 53 * u) < q" by linarith+
  then have "q / u \<le> of_int (2 ^ 53)" "of_int (- (2 ^ 53)) \<le> q / u"
    using u by (simp_all add: field_simps)
  then have "n \<le> 2 ^ 53" "- (2 ^ 53) \<le> n"
    unfolding n_def by (auto intro: round_half_even_le round_half_even_ge)
  then have "\<bar>n\<bar> \<le> 2 ^ 53" by simp
  moreover have "- 1074 \<le> e - 52" by (simp add: e_def)
  ultimately show ?thesis unfolding is_double_def flq u_def by blast
qed

text \<open>Rounding never goes below a binary64 value that the exact result reaches.\<close>

lemma fl_ge_double:
  assumes r: "is_double r" and le: "r \<le> q"
  shows "r \<le> fl q"
proof (cases "q = 0")
  case True
  then show ?thesis using le by (simp add: fl_def)
next
  case False
  define e where "e = max (ilog2 \<bar>q\<bar>) (- 1022)"
  define u :: rat where "u = 2 powi (e - 52)"
  define n where "n = round_half_even (q / u)"
  have u: "0 < u" by (simp add: u_def)
  have flq: "fl q = of_int n * u" using fl_nonzero [OF False] by (simp add: e_def u_def n_def)
  have pe: "2 powi e = 2 ^ 52 * u" by (simp add: u_def power_int_diff)
  from r obtain m k where mk: "r = of_int m * 2 powi k" "\<bar>m\<bar> \<le> 2 ^ 53" "- 1074 \<le> k"
    unfolding is_double_def by blast
  show ?thesis
  proof (cases "e - 52 \<le> k")
    case True
    define M where "M = m * 2 ^ nat (k - (e - 52))"
    have "(2::rat) powi k = 2 powi (k - (e - 52)) * 2 powi (e - 52)"
      by (simp add: power_int_add [symmetric])
    also have "(2::rat) powi (k - (e - 52)) = 2 ^ nat (k - (e - 52))"
      using True by (simp add: power_int_def)
    finally have rM: "r = of_int M * u" by (simp add: mk(1) M_def u_def)
    then have "of_int M \<le> q / u" using le u by (simp add: field_simps)
    then have "M \<le> n" unfolding n_def by (rule round_half_even_ge)
    then show ?thesis unfolding flq rM using u by simp
  next
    case False
    then have ke: "k + 53 \<le> e" by simp
    then have "- 1022 < e" using mk(3) by simp
    then have "e = ilog2 \<bar>q\<bar>" by (simp add: e_def max_def split: if_splits)
    then have qe: "2 powi e \<le> \<bar>q\<bar>" using ilog2_bounds [of "\<bar>q\<bar>"] \<open>q \<noteq> 0\<close> by simp
    have "\<bar>r\<bar> = of_int \<bar>m\<bar> * 2 powi k" by (simp add: mk(1) abs_mult)
    also have "\<dots> \<le> 2 ^ 53 * 2 powi k"
    proof -
      have "(of_int \<bar>m\<bar> :: rat) \<le> of_int (2 ^ 53)" using mk(2) by (simp only: of_int_le_iff)
      then show ?thesis by (simp add: mult_right_mono)
    qed
    also have "\<dots> = 2 powi (k + 53)" by (simp add: power_int_add)
    also have "\<dots> \<le> 2 powi e" using ke by (intro power_int_increasing) simp_all
    finally have re: "\<bar>r\<bar> \<le> 2 powi e" .
    show ?thesis
    proof (cases "0 < q")
      case True
      then have "of_int (2 ^ 52) \<le> q / u" using qe pe u by (simp add: field_simps)
      then have "2 ^ 52 \<le> n" unfolding n_def by (rule round_half_even_ge)
      then have "(of_int (2 ^ 52) :: rat) \<le> of_int n" by (simp only: of_int_le_iff)
      then have "2 powi e \<le> of_int n * u" unfolding pe using u by (simp add: mult_right_mono)
      then show ?thesis unfolding flq using re by linarith
    next
      case False
      then have "q \<le> - (2 powi e)" using qe \<open>q \<noteq> 0\<close> by linarith
      then have req: "r = - (2 powi e)" "q = - (2 powi e)" using re le by linarith+
      then have "of_int (- (2 ^ 52)) \<le> q / u" using pe u by (simp add: field_simps)
      then have "- (2 ^ 52) \<le> n" unfolding n_def by (rule round_half_even_ge)
      then have "(of_int (- (2 ^ 52)) :: rat) \<le> of_int n" by (simp only: of_int_le_iff)
      then have "- (2 powi e) \<le> of_int n * u" unfolding pe using u
        by (metis mult_right_mono less_imp_le of_int_minus of_int_numeral of_int_power
            mult_minus_left)
      then show ?thesis unfolding flq req(1) .
    qed
  qed
qed

section \<open>Evaluation of the model on concrete inputs\<close>

lemma floor_rat_numeral: "\<lfloor>numeral a / numeral b :: rat\<rfloor> = numeral a div numeral b"
  by (metis floor_divide_of_int_eq of_int_numeral)

lemma floor_rat_neg_numeral:
  "\<lfloor>- (numeral a / numeral b) :: rat\<rfloor> = - numeral a div numeral b"
  by (metis divide_minus_left floor_divide_of_int_eq of_int_neg_numeral of_int_numeral)

lemma ceiling_rat_numeral:
  "\<lceil>numeral a / numeral b :: rat\<rceil> = - (- numeral a div numeral b)"
  unfolding ceiling_def by (simp add: floor_rat_neg_numeral)

lemma ceiling_rat_neg_numeral:
  "\<lceil>- (numeral a / numeral b) :: rat\<rceil> = - (numeral a div numeral b)"
  unfolding ceiling_def by (simp add: floor_rat_numeral)

lemmas float_eval = fl_def py_float_def fadd_def fsub_def fmul_def fdiv_def int_trunc_def
  round_half_even_def Let_def ilog2.simps floor_rat_numeral floor_rat_neg_numeral
  ceiling_rat_numeral ceiling_rat_neg_numeral

lemmas model_eval = py_index_def layer_speeds_def layer_colors_def Drop_init_def
  Drop_update_def Drop_draw_def color_idx_def probe_def Cluster_init_def Cluster_update_def
  Cluster_draw_def spells_def stdlib_curses_def spawn_drop_def handle_key_def
  update_phase_def tick_def main_init_def SPINNER_def SPIN_SPEED_def TARGET_COUNT_def
  lit_def eval_nat_numeral

text \<open>The binary64 values of the float literals of the source.\<close>

lemma py_float_values:
  "py_float (4 / 10) = 3602879701896397 / 9007199254740992"
  "py_float (8 / 10) = 3602879701896397 / 4503599627370496"
  "py_float (12 / 10) = 5404319552844595 / 4503599627370496"
  "py_float (16 / 10) = 3602879701896397 / 2251799813685248"
  "py_float (5 / 100) = 3602879701896397 / 72057594037927936"
  "py_float (1 / 100) = 5764607523034235 / 576460752303423488"
  "py_float (15 / 100) = 5404319552844595 / 36028797018963968"
  "py_float (3 / 10) = 5404319552844595 / 18014398509481984"
  "py_float (1 / 10) = 3602879701896397 / 36028797018963968"
  "py_float (31415 / 10000) = 7074029114692207 / 2251799813685248"
  by (simp_all add: float_eval)


section \<open>Properties of Drop\<close>

lemma age_and_prune_eq:
  "age_and_prune n es =
     map (\<lambda>(ty, ch, age). (ty, ch, age + 1)) (filter (\<lambda>(ty, ch, age). age < int n) es)"
  by (induction n es rule: age_and_prune.induct) simp_all

lemma ages_age_and_prune:
  "map (snd \<circ> snd) (age_and_prune n es) =
     map (\<lambda>a. a + 1) (filter (\<lambda>a. a < int n) (map (snd \<circ> snd) es))"
  by (induction n es rule: age_and_prune.induct) simp_all

lemma trail_ok_Nil: "trail_ok n []"
  by (simp add: trail_ok_def)

lemma trail_ok_step:
  assumes "trail_ok n es"
  shows "trail_ok n (age_and_prune n ((ty, ch, 0) # es))"
proof -
  let ?as = "map (snd \<circ> snd) es"
  have d: "distinct ?as" and r: "\<forall>a \<in> set ?as. 1 \<le> a \<and> a \<le> int n"
    using assms by (simp_all add: trail_ok_def)
  then have "0 \<notin> set ?as" by fastforce
  then have "distinct (0 # ?as)" using d by simp
  then have "distinct (filter (\<lambda>a. a < int n) (0 # ?as))" by (rule distinct_filter)
  then have "distinct (map (\<lambda>a. a + 1) (filter (\<lambda>a. a < int n) (0 # ?as)))"
    by (simp add: distinct_map inj_on_def)
  moreover have "\<forall>a \<in> set (map (\<lambda>a. a + 1) (filter (\<lambda>a. a < int n) (0 # ?as))). 1 \<le> a \<and> a \<le> int n"
    using r by auto
  ultimately show ?thesis
    unfolding trail_ok_def ages_age_and_prune by simp
qed

lemma trail_ok_length:
  assumes "trail_ok n es"
  shows "length es \<le> n"
proof -
  let ?as = "map (snd \<circ> snd) es"
  have "length es = length ?as" by simp
  also have "\<dots> = card (set ?as)"
  proof -
    have "distinct ?as" using assms by (simp add: trail_ok_def)
    then show ?thesis by (rule distinct_card [symmetric])
  qed
  also have "\<dots> \<le> card {1..int n}"
    using assms by (intro card_mono) (auto simp: trail_ok_def)
  also have "\<dots> = n" by simp
  finally show ?thesis .
qed

lemma Drop_update_colors [simp]: "drop_colors (fst (Drop_update d r m)) = drop_colors d"
  by (simp add: Drop_update_def Let_def)

lemma Drop_update_speed [simp]: "drop_speed (fst (Drop_update d r m)) = drop_speed d"
  by (simp add: Drop_update_def Let_def)

lemma Drop_update_layer [simp]: "drop_layer (fst (Drop_update d r m)) = drop_layer d"
  by (simp add: Drop_update_def Let_def)

lemma Drop_update_y: "drop_y (fst (Drop_update d r m)) = fadd (drop_y d) (drop_speed d)"
  by (simp add: Drop_update_def Let_def)

lemma Drop_update_trail:
  "drop_trail (fst (Drop_update d r m)) =
     age_and_prune (length (drop_colors d))
       ((int_trunc (fadd (drop_y d) (drop_speed d)), drop_char d, 0) # drop_trail d)"
  by (simp add: Drop_update_def Let_def)

lemma Drop_update_trail_ok:
  "trail_ok (length (drop_colors d)) (drop_trail d)
   \<Longrightarrow> trail_ok (length (drop_colors d)) (drop_trail (fst (Drop_update d r m)))"
  unfolding Drop_update_trail by (rule trail_ok_step)

lemma Drop_updates_colors [simp]: "drop_colors (Drop_updates d r ms) = drop_colors d"
  by (induction d r ms rule: Drop_updates.induct) simp_all

lemma Drop_updates_speed [simp]: "drop_speed (Drop_updates d r ms) = drop_speed d"
  by (induction d r ms rule: Drop_updates.induct) simp_all

lemma Drop_updates_layer [simp]: "drop_layer (Drop_updates d r ms) = drop_layer d"
  by (induction d r ms rule: Drop_updates.induct) simp_all

lemma Drop_updates_trail_ok:
  "trail_ok (length (drop_colors d)) (drop_trail d)
   \<Longrightarrow> trail_ok (length (drop_colors d)) (drop_trail (Drop_updates d r ms))"
proof (induction d r ms rule: Drop_updates.induct)
  case (1 d r)
  then show ?case by simp
next
  case (2 d r m ms)
  from Drop_update_trail_ok [OF "2.prems"] "2.IH" show ?case by simp
qed

lemma Drop_init_fields:
  assumes "Drop_init x layer max_row colors y0 ch = Inr d"
  shows "drop_trail d = []" "drop_colors d = colors" "drop_y d = y0" "drop_x d = x"
    "drop_char d = ch" "drop_layer d = layer" "py_index layer_speeds layer = Inr (drop_speed d)"
  using assms by (auto simp: Drop_init_def split: sum.splits)

lemma layer_colors_length: "colors \<in> set layer_colors \<Longrightarrow> length colors = 5"
  by (auto simp: layer_colors_def)

text \<open>
  Claim C4. A drop starts with an empty trail, and after any number of updates, whatever
  the random morph draws, its trail is no longer than its colour gradient; the gradients
  of \<open>layer_colors\<close> have length 5.
\<close>

theorem trail_length_le_depth:
  assumes "Drop_init x layer max_row colors y0 ch = Inr d0"
  shows "length (drop_trail (Drop_updates d0 rows ms)) \<le> length colors \<and>
         (colors \<in> set layer_colors \<longrightarrow> length (drop_trail (Drop_updates d0 rows ms)) \<le> 5)"
proof -
  have "trail_ok (length (drop_colors d0)) (drop_trail d0)"
    using Drop_init_fields(1) [OF assms] by (simp add: trail_ok_Nil)
  then have "trail_ok (length (drop_colors d0)) (drop_trail (Drop_updates d0 rows ms))"
    by (rule Drop_updates_trail_ok)
  then have "length (drop_trail (Drop_updates d0 rows ms)) \<le> length colors"
    using trail_ok_length Drop_init_fields(2) [OF assms] by fastforce
  then show ?thesis using layer_colors_length by fastforce
qed


theorem trail_length_le_depth_witness:
  "Drop_init 3 0 24 [1, 2, 3, 4, 5] (- 2) 1488 =
     Inr \<lparr>drop_x = 3, drop_layer = 0, drop_y = - 2, drop_speed = py_float (4 / 10),
        drop_char = 1488, drop_trail = [], drop_colors = [1, 2, 3, 4, 5]\<rparr> \<and>
   length (drop_trail (Drop_updates \<lparr>drop_x = 3, drop_layer = 0, drop_y = - 2, drop_speed = py_float (4 / 10),
        drop_char = 1488, drop_trail = [], drop_colors = [1, 2, 3, 4, 5]\<rparr> 24 [None, None, Some 1489, None, None, None, None]))
     \<le> length [1, 2, 3, 4, 5 :: nat] \<and>
   [1, 2, 3, 4, 5] \<in> set layer_colors \<and>
   length (drop_trail (Drop_updates \<lparr>drop_x = 3, drop_layer = 0, drop_y = - 2, drop_speed = py_float (4 / 10),
        drop_char = 1488, drop_trail = [], drop_colors = [1, 2, 3, 4, 5]\<rparr> 24 [None, None, Some 1489, None, None, None, None])) \<le> 5"
proof -
  have h: "Drop_init 3 0 24 [1, 2, 3, 4, 5] (- 2) 1488 =
     Inr \<lparr>drop_x = 3, drop_layer = 0, drop_y = - 2, drop_speed = py_float (4 / 10),
        drop_char = 1488, drop_trail = [], drop_colors = [1, 2, 3, 4, 5]\<rparr>"
    by (simp add: float_eval model_eval)
  have m: "[1, 2, 3, 4, 5] \<in> set layer_colors" by (simp add: layer_colors_def)
  from trail_length_le_depth [OF h, of 24 "[None, None, Some 1489, None, None, None, None]"] m h
  show ?thesis by blast
qed

text \<open>
  Claim C5, as stated, fails: the entry inserted with age 0 is aged in the same pass, and
  an entry is dropped only when its age before the increment has reached the depth. After
  five updates of a new drop the ages are 1 to 5: the newest is 1, the oldest equals the
  palette depth.
\<close>

theorem newest_age_zero_counterexample:
  "map (snd \<circ> snd) (drop_trail (Drop_updates \<lparr>drop_x = 3, drop_layer = 0, drop_y = - 2, drop_speed = py_float (4 / 10),
        drop_char = 1488, drop_trail = [], drop_colors = [1, 2, 3, 4, 5]\<rparr> 24 [None, None, None, None, None]))
     = [1, 2, 3, 4, 5]"
  by (simp add: float_eval model_eval)

text \<open>
  Claim C5, amended. An update prepends the entry (current integer row, current glyph,
  age 0), keeps the entries whose age is below the palette depth and adds 1 to the age of
  every entry it keeps, the new one included. So the newest entry has age 1 afterwards
  and, the ages before being non-negative, every age lies between 1 and the palette depth.
\<close>

theorem drop_update_trail_ages:
  "drop_trail (fst (Drop_update d r m)) =
     map (\<lambda>(ty, ch, age). (ty, ch, age + 1))
       (filter (\<lambda>(ty, ch, age). age < int (length (drop_colors d)))
          ((int_trunc (drop_y (fst (Drop_update d r m))), drop_char d, 0) # drop_trail d)) \<and>
   (0 < length (drop_colors d) \<longrightarrow>
      hd (drop_trail (fst (Drop_update d r m))) =
        (int_trunc (drop_y (fst (Drop_update d r m))), drop_char d, 1)) \<and>
   ((\<forall>e \<in> set (drop_trail d). 0 \<le> snd (snd e)) \<longrightarrow>
      (\<forall>e \<in> set (drop_trail (fst (Drop_update d r m))).
         1 \<le> snd (snd e) \<and> snd (snd e) \<le> int (length (drop_colors d))))"
proof (intro conjI impI)
  show "drop_trail (fst (Drop_update d r m)) =
     map (\<lambda>(ty, ch, age). (ty, ch, age + 1))
       (filter (\<lambda>(ty, ch, age). age < int (length (drop_colors d)))
          ((int_trunc (drop_y (fst (Drop_update d r m))), drop_char d, 0) # drop_trail d))"
    unfolding Drop_update_trail Drop_update_y by (rule age_and_prune_eq)
next
  assume "0 < length (drop_colors d)"
  then show "hd (drop_trail (fst (Drop_update d r m))) =
        (int_trunc (drop_y (fst (Drop_update d r m))), drop_char d, 1)"
    unfolding Drop_update_trail Drop_update_y by simp
next
  assume a: "\<forall>e \<in> set (drop_trail d). 0 \<le> snd (snd e)"
  show "\<forall>e \<in> set (drop_trail (fst (Drop_update d r m))).
         1 \<le> snd (snd e) \<and> snd (snd e) \<le> int (length (drop_colors d))"
    unfolding Drop_update_trail age_and_prune_eq using a by (auto simp: Suc_le_eq)
qed

theorem drop_update_trail_ages_witness:
  "0 < length (drop_colors \<lparr>drop_x = 3, drop_layer = 0, drop_y = 1 / 2, drop_speed = py_float (4 / 10),
        drop_char = 1489,
        drop_trail = [(0, 1489, 1), (0, 1489, 2), (0, 1488, 3), (- 1, 1488, 4), (- 1, 1488, 5)],
        drop_colors = [1, 2, 3, 4, 5]\<rparr>) \<and>
   hd (drop_trail (fst (Drop_update \<lparr>drop_x = 3, drop_layer = 0, drop_y = 1 / 2, drop_speed = py_float (4 / 10),
        drop_char = 1489,
        drop_trail = [(0, 1489, 1), (0, 1489, 2), (0, 1488, 3), (- 1, 1488, 4), (- 1, 1488, 5)],
        drop_colors = [1, 2, 3, 4, 5]\<rparr> 24 None))) = (0, 1489, 1) \<and>
   list_all (\<lambda>e. 0 \<le> snd (snd e)) (drop_trail \<lparr>drop_x = 3, drop_layer = 0, drop_y = 1 / 2, drop_speed = py_float (4 / 10),
        drop_char = 1489,
        drop_trail = [(0, 1489, 1), (0, 1489, 2), (0, 1488, 3), (- 1, 1488, 4), (- 1, 1488, 5)],
        drop_colors = [1, 2, 3, 4, 5]\<rparr>) \<and>
   list_all (\<lambda>e. 1 \<le> snd (snd e) \<and> snd (snd e) \<le> 5)
     (drop_trail (fst (Drop_update \<lparr>drop_x = 3, drop_layer = 0, drop_y = 1 / 2, drop_speed = py_float (4 / 10),
        drop_char = 1489,
        drop_trail = [(0, 1489, 1), (0, 1489, 2), (0, 1488, 3), (- 1, 1488, 4), (- 1, 1488, 5)],
        drop_colors = [1, 2, 3, 4, 5]\<rparr> 24 None)))"
proof -
  let ?d = "\<lparr>drop_x = 3, drop_layer = 0, drop_y = 1 / 2, drop_speed = py_float (4 / 10),
        drop_char = 1489,
        drop_trail = [(0, 1489, 1), (0, 1489, 2), (0, 1488, 3), (- 1, 1488, 4), (- 1, 1488, 5)],
        drop_colors = [1, 2, 3, 4, 5]\<rparr>"
  have h1: "0 < length (drop_colors ?d)" by simp
  have h2: "\<forall>e \<in> set (drop_trail ?d). 0 \<le> snd (snd e)" by simp
  have y: "int_trunc (drop_y (fst (Drop_update ?d 24 None))) = 0"
    by (simp add: float_eval model_eval)
  from drop_update_trail_ages [of ?d 24 None] h1 h2 y
  have "hd (drop_trail (fst (Drop_update ?d 24 None))) = (0, 1489, 1)"
    and "\<forall>e \<in> set (drop_trail (fst (Drop_update ?d 24 None))). 1 \<le> snd (snd e) \<and> snd (snd e) \<le> 5"
    by simp_all
  then show ?thesis using h1 h2 by (simp add: list_all_iff)
qed

lemma draw_trail_ok:
  assumes "\<forall>e \<in> set es. 1 \<le> snd (snd e)" and "colors \<noteq> []"
  shows "draw_trail x colors es =
           Inr (map (\<lambda>(ty, ch, age). AddStr ty x [ch] (colors ! nat (color_idx colors age))) es)"
  using assms
proof (induction x colors es rule: draw_trail.induct)
  case (1 x colors)
  then show ?case by simp
next
  case (2 x colors ty ch age es)
  then have "1 \<le> age" by simp
  moreover have "0 < int (length colors)" using "2.prems"(2) by simp
  ultimately have "0 \<le> color_idx colors age" "color_idx colors age < int (length colors)"
    unfolding color_idx_def by linarith+
  then have "py_index colors (color_idx colors age) = Inr (colors ! nat (color_idx colors age))"
    by (simp add: py_index_def Let_def)
  then show ?case using 2 by simp
qed

text \<open>
  Claim C10. After any number of updates of a drop, every trail entry has age at least 1,
  so with a gradient of at least two colours the index \<open>min(age, depth - 1)\<close> that
  \<open>Drop.draw\<close> computes is at least 1; \<open>Drop.draw\<close> succeeds and, the colours of the
  gradient being pairwise different, no \<open>addstr\<close> of it uses the colour at index 0.
\<close>

theorem trail_ages_at_least_one:
  assumes "Drop_init x layer max_row colors y0 ch = Inr d0" and "2 \<le> length colors"
  shows "(\<forall>e \<in> set (drop_trail (Drop_updates d0 rows ms)).
            1 \<le> snd (snd e) \<and> 1 \<le> color_idx colors (snd (snd e))) \<and>
         (distinct colors \<longrightarrow>
            (\<exists>calls. Drop_draw (Drop_updates d0 rows ms) cols = Inr calls \<and>
               (\<forall>r c t. AddStr r c t (colors ! 0) \<notin> set calls)))"
proof -
  let ?d = "Drop_updates d0 rows ms"
  have c: "drop_colors ?d = colors" "drop_colors d0 = colors"
    using Drop_init_fields(2) [OF assms(1)] by simp_all
  have "trail_ok (length (drop_colors d0)) (drop_trail d0)"
    using Drop_init_fields(1) [OF assms(1)] by (simp add: trail_ok_Nil)
  then have "trail_ok (length (drop_colors d0)) (drop_trail ?d)"
    by (rule Drop_updates_trail_ok)
  then have ages: "\<forall>e \<in> set (drop_trail ?d). 1 \<le> snd (snd e)"
    by (simp add: trail_ok_def)
  then have idx: "\<forall>e \<in> set (drop_trail ?d). 1 \<le> color_idx colors (snd (snd e))"
    using assms(2) by (simp add: color_idx_def)
  have draw: "Drop_draw ?d cols =
      Inr (map (\<lambda>(ty, ch, age). AddStr ty (drop_x ?d) [ch] (colors ! nat (color_idx colors age)))
             (drop_trail ?d))"
    unfolding Drop_draw_def c(1) using ages assms(2) by (intro draw_trail_ok) auto
  have "AddStr r c t (colors ! 0) \<notin>
          set (map (\<lambda>(ty, ch, age). AddStr ty (drop_x ?d) [ch] (colors ! nat (color_idx colors age)))
             (drop_trail ?d))" if dist: "distinct colors" for r c t
  proof
    assume "AddStr r c t (colors ! 0) \<in>
          set (map (\<lambda>(ty, ch, age). AddStr ty (drop_x ?d) [ch] (colors ! nat (color_idx colors age)))
             (drop_trail ?d))"
    then obtain ty ch age where e: "(ty, ch, age) \<in> set (drop_trail ?d)"
      and eq: "colors ! nat (color_idx colors age) = colors ! 0" by auto
    from e idx have 1: "1 \<le> color_idx colors age" by fastforce
    have 2: "color_idx colors age < int (length colors)" by (simp add: color_idx_def)
    from 1 2 have 3: "nat (color_idx colors age) < length colors" "nat (color_idx colors age) \<noteq> 0"
      by simp_all
    have 4: "0 < length colors" using assms(2) by linarith
    from nth_eq_iff_index_eq [OF dist 3(1) 4] eq 3(2) show False by blast
  qed
  then show ?thesis using ages idx draw by auto
qed

theorem trail_ages_at_least_one_witness:
  "Drop_init 3 0 24 [1, 2, 3, 4, 5] (- 2) 1488 =
     Inr \<lparr>drop_x = 3, drop_layer = 0, drop_y = - 2, drop_speed = py_float (4 / 10),
        drop_char = 1488, drop_trail = [], drop_colors = [1, 2, 3, 4, 5]\<rparr> \<and>
   2 \<le> length [1, 2, 3, 4, 5 :: nat] \<and> distinct [1, 2, 3, 4, 5 :: nat] \<and>
   list_all (\<lambda>e. 1 \<le> snd (snd e) \<and> 1 \<le> color_idx [1, 2, 3, 4, 5] (snd (snd e)))
     (drop_trail (Drop_updates \<lparr>drop_x = 3, drop_layer = 0, drop_y = - 2, drop_speed = py_float (4 / 10),
        drop_char = 1488, drop_trail = [], drop_colors = [1, 2, 3, 4, 5]\<rparr> 24 [None, None, None])) \<and>
   Drop_draw (Drop_updates \<lparr>drop_x = 3, drop_layer = 0, drop_y = - 2, drop_speed = py_float (4 / 10),
        drop_char = 1488, drop_trail = [], drop_colors = [1, 2, 3, 4, 5]\<rparr> 24 [None, None, None]) 80 =
     Inr [AddStr 0 3 [1488] 2, AddStr (- 1) 3 [1488] 3, AddStr (- 1) 3 [1488] 4]"
proof -
  have h: "Drop_init 3 0 24 [1, 2, 3, 4, 5] (- 2) 1488 =
     Inr \<lparr>drop_x = 3, drop_layer = 0, drop_y = - 2, drop_speed = py_float (4 / 10),
        drop_char = 1488, drop_trail = [], drop_colors = [1, 2, 3, 4, 5]\<rparr>"
    by (simp add: float_eval model_eval)
  have l: "2 \<le> length [1, 2, 3, 4, 5 :: nat]" by simp
  have d: "distinct [1, 2, 3, 4, 5 :: nat]" by simp
  have e: "Drop_draw (Drop_updates \<lparr>drop_x = 3, drop_layer = 0, drop_y = - 2, drop_speed = py_float (4 / 10),
        drop_char = 1488, drop_trail = [], drop_colors = [1, 2, 3, 4, 5]\<rparr> 24 [None, None, None]) 80 =
     Inr [AddStr 0 3 [1488] 2, AddStr (- 1) 3 [1488] 3, AddStr (- 1) 3 [1488] 4]"
    by (simp add: float_eval model_eval)
  from trail_ages_at_least_one [OF h l, of 24 "[None, None, None]" 80]
  have "\<forall>e \<in> set (drop_trail (Drop_updates \<lparr>drop_x = 3, drop_layer = 0, drop_y = - 2, drop_speed = py_float (4 / 10),
        drop_char = 1488, drop_trail = [], drop_colors = [1, 2, 3, 4, 5]\<rparr> 24 [None, None, None])).
            1 \<le> snd (snd e) \<and> 1 \<le> color_idx [1, 2, 3, 4, 5] (snd (snd e))"
    by blast
  then show ?thesis using h l d e by (simp add: list_all_iff)
qed

lemma Drop_updates_snoc:
  "Drop_updates d r (ms @ [m]) = fst (Drop_update (Drop_updates d r ms) r m)"
  by (induction d r ms rule: Drop_updates.induct) simp_all

lemma layer_speeds_pos: "s \<in> set layer_speeds \<Longrightarrow> 0 < s"
proof -
  have "0 < py_float (4 / 10)" "0 < py_float (8 / 10)" "0 < py_float (12 / 10)"
    "0 < py_float (16 / 10)" by (simp_all add: float_eval)
  then show "s \<in> set layer_speeds \<Longrightarrow> 0 < s" by (auto simp: layer_speeds_def)
qed

lemma py_index_mem: "py_index xs i = Inr v \<Longrightarrow> v \<in> set xs"
  by (auto simp: py_index_def Let_def split: if_splits)

lemma fadd_ge: "is_double a \<Longrightarrow> 0 \<le> b \<Longrightarrow> a \<le> fadd a b"
  unfolding fadd_def by (rule fl_ge_double) simp_all

lemma Drop_updates_is_double:
  "is_double (drop_y d) \<Longrightarrow> is_double (drop_y (Drop_updates d r ms))"
proof (induction d r ms rule: Drop_updates.induct)
  case (1 d r)
  then show ?case by simp
next
  case (2 d r m ms)
  have "is_double (drop_y (fst (Drop_update d r m)))"
    by (simp add: Drop_update_y fadd_def is_double_fl)
  then show ?case using "2.IH" by simp
qed

lemma Drop_updates_y_mono:
  "is_double (drop_y d) \<Longrightarrow> 0 \<le> drop_speed d \<Longrightarrow> drop_y d \<le> drop_y (Drop_updates d r ms)"
proof (induction d r ms rule: Drop_updates.induct)
  case (1 d r)
  then show ?case by simp
next
  case (2 d r m ms)
  have a: "drop_y d \<le> drop_y (fst (Drop_update d r m))"
    unfolding Drop_update_y using "2.prems" by (rule fadd_ge)
  have "is_double (drop_y (fst (Drop_update d r m)))"
    by (simp add: Drop_update_y fadd_def is_double_fl)
  then have "drop_y (fst (Drop_update d r m)) \<le> drop_y (Drop_updates (fst (Drop_update d r m)) r ms)"
    using "2.IH" "2.prems"(2) by simp
  then show ?case using a by simp
qed

text \<open>
  Claim C7, as stated, fails for the increase: the position is a float, and the sum of
  position and speed is rounded. A drop created at row \<open>-2.0\<close> in layer 0 moves to the
  float \<open>-1.6\<close>, and neither the exact difference of the two positions nor their float
  difference equals the speed, the float \<open>0.4\<close>.
\<close>

theorem exact_speed_delta_counterexample:
  "Drop_init 3 0 24 [1, 2, 3, 4, 5] (- 2) 1488 =
     Inr \<lparr>drop_x = 3, drop_layer = 0, drop_y = - 2, drop_speed = py_float (4 / 10),
        drop_char = 1488, drop_trail = [], drop_colors = [1, 2, 3, 4, 5]\<rparr> \<and>
   drop_y (fst (Drop_update \<lparr>drop_x = 3, drop_layer = 0, drop_y = - 2, drop_speed = py_float (4 / 10),
        drop_char = 1488, drop_trail = [], drop_colors = [1, 2, 3, 4, 5]\<rparr> 24 None)) - drop_y \<lparr>drop_x = 3, drop_layer = 0, drop_y = - 2, drop_speed = py_float (4 / 10),
        drop_char = 1488, drop_trail = [], drop_colors = [1, 2, 3, 4, 5]\<rparr>
     \<noteq> drop_speed \<lparr>drop_x = 3, drop_layer = 0, drop_y = - 2, drop_speed = py_float (4 / 10),
        drop_char = 1488, drop_trail = [], drop_colors = [1, 2, 3, 4, 5]\<rparr> \<and>
   fsub (drop_y (fst (Drop_update \<lparr>drop_x = 3, drop_layer = 0, drop_y = - 2, drop_speed = py_float (4 / 10),
        drop_char = 1488, drop_trail = [], drop_colors = [1, 2, 3, 4, 5]\<rparr> 24 None))) (drop_y \<lparr>drop_x = 3, drop_layer = 0, drop_y = - 2, drop_speed = py_float (4 / 10),
        drop_char = 1488, drop_trail = [], drop_colors = [1, 2, 3, 4, 5]\<rparr>)
     \<noteq> drop_speed \<lparr>drop_x = 3, drop_layer = 0, drop_y = - 2, drop_speed = py_float (4 / 10),
        drop_char = 1488, drop_trail = [], drop_colors = [1, 2, 3, 4, 5]\<rparr>"
  by (simp add: float_eval model_eval)

text \<open>
  Claim C7, amended. The speed of a drop is the entry of its layer in the fixed list of
  speeds and never changes, nor does the layer; each update replaces the position by the
  float sum of position and speed (the exact sum rounded to the nearest binary64 value);
  and the position never decreases, from one update to the next and over any sequence
  of updates.
\<close>

theorem drop_position_never_decreases:
  assumes "Drop_init x layer max_row colors y0 ch = Inr d0" and "is_double y0"
  shows "py_index layer_speeds layer = Inr (drop_speed d0) \<and>
         drop_speed (Drop_updates d0 rows ms) = drop_speed d0 \<and>
         drop_layer (Drop_updates d0 rows ms) = layer \<and>
         drop_y (Drop_updates d0 rows (ms @ [m])) =
           fadd (drop_y (Drop_updates d0 rows ms)) (drop_speed d0) \<and>
         drop_y (Drop_updates d0 rows ms) \<le> drop_y (Drop_updates d0 rows (ms @ [m])) \<and>
         y0 \<le> drop_y (Drop_updates d0 rows ms)"
proof -
  have sp: "py_index layer_speeds layer = Inr (drop_speed d0)"
    by (rule Drop_init_fields(7) [OF assms(1)])
  then have pos: "0 \<le> drop_speed d0"
    using layer_speeds_pos py_index_mem by fastforce
  have y0: "drop_y d0 = y0" by (rule Drop_init_fields(3) [OF assms(1)])
  have dbl: "is_double (drop_y (Drop_updates d0 rows ms))"
    using assms(2) y0 by (simp add: Drop_updates_is_double)
  have step: "drop_y (Drop_updates d0 rows (ms @ [m])) =
           fadd (drop_y (Drop_updates d0 rows ms)) (drop_speed d0)"
    by (simp add: Drop_updates_snoc Drop_update_y)
  have "drop_y (Drop_updates d0 rows ms) \<le> drop_y (Drop_updates d0 rows (ms @ [m]))"
    unfolding step using dbl pos by (rule fadd_ge)
  moreover have "y0 \<le> drop_y (Drop_updates d0 rows ms)"
    using Drop_updates_y_mono [of d0 rows ms] assms(2) y0 pos by simp
  ultimately show ?thesis
    using sp step Drop_init_fields(6) [OF assms(1)] by simp
qed

theorem drop_position_never_decreases_witness:
  "Drop_init 3 0 24 [1, 2, 3, 4, 5] (- 2) 1488 =
     Inr \<lparr>drop_x = 3, drop_layer = 0, drop_y = - 2, drop_speed = py_float (4 / 10),
        drop_char = 1488, drop_trail = [], drop_colors = [1, 2, 3, 4, 5]\<rparr> \<and>
   is_double (- 2) \<and>
   py_index layer_speeds 0 = Inr (py_float (4 / 10)) \<and>
   drop_y (Drop_updates \<lparr>drop_x = 3, drop_layer = 0, drop_y = - 2, drop_speed = py_float (4 / 10),
        drop_char = 1488, drop_trail = [], drop_colors = [1, 2, 3, 4, 5]\<rparr> 24 ([None, None] @ [None])) =
     fadd (drop_y (Drop_updates \<lparr>drop_x = 3, drop_layer = 0, drop_y = - 2, drop_speed = py_float (4 / 10),
        drop_char = 1488, drop_trail = [], drop_colors = [1, 2, 3, 4, 5]\<rparr> 24 [None, None])) (py_float (4 / 10)) \<and>
   drop_y (Drop_updates \<lparr>drop_x = 3, drop_layer = 0, drop_y = - 2, drop_speed = py_float (4 / 10),
        drop_char = 1488, drop_trail = [], drop_colors = [1, 2, 3, 4, 5]\<rparr> 24 [None, None])
     \<le> drop_y (Drop_updates \<lparr>drop_x = 3, drop_layer = 0, drop_y = - 2, drop_speed = py_float (4 / 10),
        drop_char = 1488, drop_trail = [], drop_colors = [1, 2, 3, 4, 5]\<rparr> 24 ([None, None] @ [None])) \<and>
   - 2 \<le> drop_y (Drop_updates \<lparr>drop_x = 3, drop_layer = 0, drop_y = - 2, drop_speed = py_float (4 / 10),
        drop_char = 1488, drop_trail = [], drop_colors = [1, 2, 3, 4, 5]\<rparr> 24 [None, None])"
proof -
  have h: "Drop_init 3 0 24 [1, 2, 3, 4, 5] (- 2) 1488 =
     Inr \<lparr>drop_x = 3, drop_layer = 0, drop_y = - 2, drop_speed = py_float (4 / 10),
        drop_char = 1488, drop_trail = [], drop_colors = [1, 2, 3, 4, 5]\<rparr>"
    by (simp add: float_eval model_eval)
  have "(- 2 :: rat) = of_int (- 2) * 2 powi 0" by simp
  then have dbl: "is_double (- 2)"
    unfolding is_double_def by (intro exI [of _ "- 2"] exI [of _ 0]) simp
  from drop_position_never_decreases [OF h dbl, of 24 "[None, None]" None] h dbl
  show ?thesis by simp
qed

section \<open>Properties of the detection loop and of the frame loop\<close>

lemma Cluster_init_spells:
  "Cluster_init w cx cy life colors = Inr c \<Longrightarrow> spells c = w \<and> w \<noteq> []"
  by (auto simp: Cluster_init_def fdiv_def spells_def comp_def case_prod_unfold map_snd_enumerate
      split: if_splits)

lemma Cluster_init_nonempty:
  "w \<noteq> [] \<Longrightarrow> \<exists>c. Cluster_init w cx cy life colors = Inr c"
  by (simp add: Cluster_init_def fdiv_def)

lemma logged_append [simp]: "logged (xs @ ys) = logged xs @ logged ys"
  by (induction xs rule: logged.induct) simp_all

lemma detect_result:
  assumes "detect wl pr cols rows fnd cls = Inr (fnd', cls', effs)"
  shows "\<exists>new cs. fnd' = fnd @ new \<and> cls' = cls @ cs \<and> map spells cs = new \<and>
           logged effs = new \<and> distinct new \<and> subseq new wl \<and>
           set new = {w \<in> set wl. substring_in w pr \<and> w \<notin> set fnd}"
  using assms
proof (induction wl arbitrary: fnd cls fnd' cls' effs)
  case Nil
  then show ?case by simp
next
  case (Cons w ws)
  show ?case
  proof (cases "substring_in w pr \<and> w \<notin> set fnd")
    case True
    with Cons.prems obtain c f cl e where
      c: "Cluster_init w (cols div 2) (rows div 2) 40 (layer_colors ! 0) = Inr c" and
      r: "detect ws pr cols rows (fnd @ [w]) (cls @ [c]) = Inr (f, cl, e)" and
      eq: "fnd' = f" "cls' = cl" "effs = LogInfo w # Beep # e"
      by (auto split: sum.splits)
    from Cons.IH [OF r] obtain new cs where
      n: "f = (fnd @ [w]) @ new" "cl = (cls @ [c]) @ cs" "map spells cs = new"
         "logged e = new" "distinct new" "subseq new ws"
         "set new = {v \<in> set ws. substring_in v pr \<and> v \<notin> set (fnd @ [w])}"
      by blast
    have "w \<notin> set new" using n(7) by simp
    moreover have "set (w # new) = {v \<in> set (w # ws). substring_in v pr \<and> v \<notin> set fnd}"
      using n(7) True by auto
    moreover have "spells c = w" using Cluster_init_spells [OF c] by simp
    ultimately have "fnd' = fnd @ (w # new) \<and> cls' = cls @ (c # cs) \<and>
        map spells (c # cs) = w # new \<and> logged effs = w # new \<and> distinct (w # new) \<and>
        subseq (w # new) (w # ws) \<and>
        set (w # new) = {v \<in> set (w # ws). substring_in v pr \<and> v \<notin> set fnd}"
      using n eq by simp
    then show ?thesis by (intro exI [of _ "w # new"] exI [of _ "c # cs"])
  next
    case False
    with Cons.prems have r: "detect ws pr cols rows fnd cls = Inr (fnd', cls', effs)"
      by auto
    from Cons.IH [OF r] obtain new cs where
      n: "fnd' = fnd @ new" "cls' = cls @ cs" "map spells cs = new"
         "logged effs = new" "distinct new" "subseq new ws"
         "set new = {v \<in> set ws. substring_in v pr \<and> v \<notin> set fnd}"
      by blast
    have "set new = {v \<in> set (w # ws). substring_in v pr \<and> v \<notin> set fnd}"
      using n(7) False by auto
    moreover have "subseq new (w # ws)" using n(6) by (rule list_emb_Cons)  
    ultimately have "fnd' = fnd @ new \<and> cls' = cls @ cs \<and> map spells cs = new \<and>
        logged effs = new \<and> distinct new \<and> subseq new (w # ws) \<and>
        set new = {v \<in> set (w # ws). substring_in v pr \<and> v \<notin> set fnd}"
      using n by simp
    then show ?thesis by (intro exI [of _ new] exI [of _ cs])
  qed
qed

lemma detect_total:
  assumes "[] \<notin> set wl"
  shows "\<exists>f cl e. detect wl pr cols rows fnd cls = Inr (f, cl, e)"
  using assms
proof (induction wl arbitrary: fnd cls)
  case Nil
  then show ?case by simp
next
  case (Cons w ws)
  then have w: "w \<noteq> []" and ws: "[] \<notin> set ws" by auto
  from Cluster_init_nonempty [OF w] obtain c where
    c: "Cluster_init w (cols div 2) (rows div 2) 40 (layer_colors ! 0) = Inr c" by blast
  from Cons.IH [OF ws] obtain f cl e where
    1: "detect ws pr cols rows (fnd @ [w]) (cls @ [c]) = Inr (f, cl, e)" by blast
  from Cons.IH [OF ws] obtain f' cl' e' where
    2: "detect ws pr cols rows fnd cls = Inr (f', cl', e')" by blast
  show ?case
  proof (cases "substring_in w pr \<and> w \<notin> set fnd")
    case True
    then show ?thesis using c 1 by simp
  next
    case False
    then show ?thesis using 2 by auto
  qed
qed


lemma logged_draw_trail: "draw_trail x colors es = Inr calls \<Longrightarrow> logged calls = []"
proof (induction x colors es arbitrary: calls rule: draw_trail.induct)
  case (1 x colors)
  then show ?case by simp
next
  case (2 x colors ty ch age es)
  then show ?case by (auto split: sum.splits)
qed

lemma logged_draw_letters: "draw_letters cm c ls = Inr calls \<Longrightarrow> logged calls = []"
proof (induction cm c ls arbitrary: calls rule: draw_letters.induct)
  case (1 cm c)
  then show ?case by simp
next
  case (2 cm c l ls)
  then show ?case by (auto simp: Let_def split: sum.splits option.splits)
qed

lemma detect_distinct:
  assumes "detect wl pr cols rows fnd cls = Inr (fnd', cls', effs)" and "distinct fnd"
  shows "distinct fnd'"
proof -
  from detect_result [OF assms(1)] obtain new where
    "fnd' = fnd @ new" "distinct new" "set new = {w \<in> set wl. substring_in w pr \<and> w \<notin> set fnd}"
    by blast
  then show ?thesis using assms(2) by auto
qed

lemma drops_loop_result:
  assumes "drops_loop wl rows cols ds ms fnd cls = Inr (nd, fnd', cls', effs)"
  shows "\<exists>new cs. fnd' = fnd @ new \<and> cls' = cls @ cs \<and> map spells cs = new \<and>
           logged effs = new \<and> (distinct fnd \<longrightarrow> distinct fnd')"
  using assms
proof (induction ds arbitrary: ms fnd cls nd fnd' cls' effs)
  case Nil
  then show ?case by simp
next
  case (Cons d ds)
  obtain d' alive where u: "Drop_update d rows (case ms of [] \<Rightarrow> None | m # ms' \<Rightarrow> m) = (d', alive)"
    by (cases "Drop_update d rows (case ms of [] \<Rightarrow> None | m # ms' \<Rightarrow> m)")
  show ?case
  proof (cases alive)
    case True
    with Cons.prems u obtain calls nd0 effs0 where
      dr: "Drop_draw d' cols = Inr calls" and
      r: "drops_loop wl rows cols ds (tl ms) fnd cls = Inr (nd0, fnd', cls', effs0)" and
      e: "effs = calls @ effs0"
      by (auto split: sum.splits)
    from Cons.IH [OF r] obtain new cs where
      n: "fnd' = fnd @ new" "cls' = cls @ cs" "map spells cs = new" "logged effs0 = new"
         "distinct fnd \<longrightarrow> distinct fnd'" by blast
    have "logged calls = []" using dr unfolding Drop_draw_def by (rule logged_draw_trail)
    then have "logged effs = new" using e n(4) by simp
    then show ?thesis using n by blast
  next
    case False
    with Cons.prems u obtain f1 cl1 effs1 nd0 effs0 where
      dt: "detect wl (probe d') cols rows fnd cls = Inr (f1, cl1, effs1)" and
      r: "drops_loop wl rows cols ds (tl ms) f1 cl1 = Inr (nd0, fnd', cls', effs0)" and
      e: "effs = effs1 @ effs0"
      by (auto split: sum.splits)
    from detect_result [OF dt] obtain new1 cs1 where
      n1: "f1 = fnd @ new1" "cl1 = cls @ cs1" "map spells cs1 = new1" "logged effs1 = new1"
      by blast
    from Cons.IH [OF r] obtain new cs where
      n: "fnd' = f1 @ new" "cls' = cl1 @ cs" "map spells cs = new" "logged effs0 = new"
         "distinct f1 \<longrightarrow> distinct fnd'" by blast
    have "distinct fnd \<longrightarrow> distinct fnd'" using detect_distinct [OF dt] n(5) by blast
    moreover have "fnd' = fnd @ (new1 @ new)" "cls' = cls @ (cs1 @ cs)"
      "map spells (cs1 @ cs) = new1 @ new" "logged effs = new1 @ new"
      using n n1 e by simp_all
    ultimately show ?thesis by blast
  qed
qed

lemma clusters_step_result:
  assumes "clusters_step cm cs = Inr (kept, effs)"
  shows "kept = [] \<and> logged effs = []"
  using assms
proof (induction cs arbitrary: kept effs)
  case Nil
  then show ?case by simp
next
  case (Cons c cs)
  obtain c' alive where u: "Cluster_update c = (c', alive)" by (cases "Cluster_update c")
  show ?case
  proof (cases alive)
    case True
    with Cons.prems u obtain r calls kept0 effs0 where
      dr: "Cluster_draw cm c' = Inr (r, calls)" and
      st: "clusters_step cm cs = Inr (kept0, effs0)" and
      e: "kept = (if truthy r then [c'] else []) @ kept0" "effs = calls @ effs0"
      by (auto split: sum.splits)
    have "logged calls = []" using dr
      by (auto simp: Cluster_draw_def split: sum.splits dest: logged_draw_letters)
    moreover have "\<not> truthy r" by (cases r) simp
    ultimately show ?thesis using Cons.IH [OF st] e by simp
  next
    case False
    with Cons.prems u have "clusters_step cm cs = Inr (kept, effs)" by simp
    then show ?thesis by (rule Cons.IH)
  qed
qed

lemma update_phase_result:
  assumes "update_phase cm wl h w s inp = Inr (s', effs)"
  shows "found s' = found s @ logged effs \<and> (distinct (found s) \<longrightarrow> distinct (found s')) \<and>
         clusters s' = [] \<and> delay s' = delay s \<and> paused s' = paused s \<and>
         start s' = start s \<and> frame s' = frame s"
proof -
  from assms obtain ds nd f cl effs1 cl' effs2 sp_text rest where
    dl: "drops_loop wl (h - 1) w ds (morphs inp) (found s) (clusters s) = Inr (nd, f, cl, effs1)" and
    cs: "clusters_step cm cl = Inr (cl', effs2)" and
    s': "found s' = f" "clusters s' = cl'" "delay s' = delay s" "paused s' = paused s"
        "start s' = start s" "frame s' = frame s" and
    e: "effs = [Erase] @ effs1 @ effs2 @ rest" "logged rest = []"
    by (auto simp: update_phase_def Let_def split: sum.splits option.splits)
  from drops_loop_result [OF dl] obtain new where
    n: "f = found s @ new" "logged effs1 = new" "distinct (found s) \<longrightarrow> distinct f" by blast
  from clusters_step_result [OF cs] have c: "cl' = []" "logged effs2 = []" by simp_all
  show ?thesis using s' e n c by simp
qed

lemma handle_key_fields:
  assumes "handle_key ch s = Inr (Some s2)"
  shows "drops s2 = drops s" "clusters s2 = clusters s" "found s2 = found s"
    "start s2 = start s" "frame s2 = frame s" "spin s2 = spin s"
  using assms by (auto simp: handle_key_def split: if_splits)

lemma handle_key_quit: "handle_key 113 s = Inr None"
  by (simp add: handle_key_def)

lemma handle_key_slow: "handle_key 45 s = Inr (Some (s\<lparr>delay := fadd (delay s) (py_float (1 / 100))\<rparr>))"
  by (simp add: handle_key_def)

lemma handle_key_idle:
  assumes "ch = - 1 \<or> (0 \<le> ch \<and> ch \<le> 1114111 \<and> ch \<noteq> 112 \<and> ch \<noteq> 113)"
  shows "\<exists>s2. handle_key ch s = Inr (Some s2) \<and> paused s2 = paused s"
  using assms by (auto simp: handle_key_def)

lemma tick_paused:
  assumes "handle_key (key inp) (s\<lparr>frame := frame s + 1\<rparr>) = Inr (Some s2)" and "paused s2"
  shows "tick cm wl h w s inp = Continue s2 [Getch]"
  using assms by (simp add: tick_def Let_def)

lemma tick_quit: "key inp = 113 \<Longrightarrow> tick cm wl h w s inp = EndScreen (s\<lparr>frame := frame s + 1\<rparr>) [Getch]"
  by (simp add: tick_def Let_def handle_key_quit)

lemma tick_unpaused:
  assumes "handle_key (key inp) (s\<lparr>frame := frame s + 1\<rparr>) = Inr (Some s2)" and "\<not> paused s2"
    and "update_phase cm wl h w s2 inp = Inr (s3, effs)"
  shows "tick cm wl h w s inp =
           (if TARGET_COUNT \<le> length (found s3) then EndScreen s3 (Getch # effs)
            else Continue s3 (Getch # effs))"
  using assms by (simp add: tick_def Let_def)

lemma tick_cases:
  obtains (raised) e where "tick cm wl h w s inp = Raised e"
  | (quit) "handle_key (key inp) (s\<lparr>frame := frame s + 1\<rparr>) = Inr None"
      "tick cm wl h w s inp = EndScreen (s\<lparr>frame := frame s + 1\<rparr>) [Getch]"
  | (paused) s2 where "handle_key (key inp) (s\<lparr>frame := frame s + 1\<rparr>) = Inr (Some s2)"
      "paused s2" "tick cm wl h w s inp = Continue s2 [Getch]"
  | (target) s2 s3 effs where "handle_key (key inp) (s\<lparr>frame := frame s + 1\<rparr>) = Inr (Some s2)"
      "\<not> paused s2" "update_phase cm wl h w s2 inp = Inr (s3, effs)"
      "TARGET_COUNT \<le> length (found s3)" "tick cm wl h w s inp = EndScreen s3 (Getch # effs)"
  | (go) s2 s3 effs where "handle_key (key inp) (s\<lparr>frame := frame s + 1\<rparr>) = Inr (Some s2)"
      "\<not> paused s2" "update_phase cm wl h w s2 inp = Inr (s3, effs)"
      "length (found s3) < TARGET_COUNT" "tick cm wl h w s inp = Continue s3 (Getch # effs)"
proof (cases "handle_key (key inp) (s\<lparr>frame := frame s + 1\<rparr>)")
  case (Inl e)
  then have "tick cm wl h w s inp = Raised e" by (simp add: tick_def Let_def)
  then show ?thesis by (rule raised)
next
  case (Inr r)
  show ?thesis
  proof (cases r)
    case None
    with Inr show ?thesis by (intro quit) (simp_all add: tick_def Let_def)
  next
    case (Some s2)
    show ?thesis
    proof (cases "paused s2")
      case True
      with Inr Some show ?thesis by (intro paused [of s2]) (simp_all add: tick_def Let_def)
    next
      case False
      show ?thesis
      proof (cases "update_phase cm wl h w s2 inp")
        case (Inl e)
        with Inr Some False have "tick cm wl h w s inp = Raised e" by (simp add: tick_def Let_def)
        then show ?thesis by (rule raised)
      next
        case up: (Inr p)
        obtain s3 effs where p: "p = (s3, effs)" by (cases p)
        show ?thesis
        proof (cases "TARGET_COUNT \<le> length (found s3)")
          case True
          with Inr Some False up p show ?thesis
            by (intro target [of s2 s3 effs]) (simp_all add: tick_def Let_def)
        next
          case f: False
          with Inr Some False up p show ?thesis
            by (intro go [of s2 s3 effs]) (simp_all add: tick_def Let_def)
        qed
      qed
    qed
  qed
qed

lemma tick_found:
  assumes "tick cm wl h w s inp = Continue s' effs \<or> tick cm wl h w s inp = EndScreen s' effs"
  shows "found s' = found s @ logged effs \<and> (distinct (found s) \<longrightarrow> distinct (found s'))"
proof (cases rule: tick_cases [of cm wl h w s inp])
  case (raised e)
  then show ?thesis using assms by simp
next
  case quit
  then show ?thesis using assms by auto
next
  case (paused s2)
  then show ?thesis using assms handle_key_fields(3) [OF paused(1)] by auto
next
  case (target s2 s3 effs3)
  from update_phase_result [OF target(3)] handle_key_fields(3) [OF target(1)]
  show ?thesis using assms target(5) by auto
next
  case (go s2 s3 effs3)
  from update_phase_result [OF go(3)] handle_key_fields(3) [OF go(1)]
  show ?thesis using assms go(5) by auto
qed

lemma tick_continue_below_target:
  assumes "tick cm wl h w s inp = Continue s' effs" and "length (found s) < TARGET_COUNT"
  shows "length (found s') < TARGET_COUNT"
proof (cases rule: tick_cases [of cm wl h w s inp])
  case (paused s2)
  then show ?thesis using assms handle_key_fields(3) [OF paused(1)] by auto
next
  case (go s2 s3 effs3)
  then show ?thesis using assms by auto
qed (use assms in auto)

lemma run_continue_below_target:
  assumes "run cm wl h w s inps = Continue s' effs" and "length (found s) < TARGET_COUNT"
  shows "length (found s') < TARGET_COUNT"
  using assms
proof (induction inps arbitrary: s effs)
  case Nil
  then show ?case by simp
next
  case (Cons i ins)
  from Cons.prems(1) obtain s1 e1 e2 where
    t: "tick cm wl h w s i = Continue s1 e1" and r: "run cm wl h w s1 ins = Continue s' e2"
    by (auto split: outcome.splits)
  from tick_continue_below_target [OF t Cons.prems(2)] Cons.IH [OF r] show ?case by simp
qed

lemma main_init_fields:
  assumes "main_init h w t0 sp = Inr s0"
  shows "found s0 = []" "clusters s0 = []" "\<not> paused s0" "delay s0 = py_float (5 / 100)"
  using assms by (auto simp: main_init_def split: sum.splits)

theorem target_count_ends_loop:
  "(TARGET_COUNT \<le> length (found s) \<and> tick cm wl h w s inp = Continue s' effs \<longrightarrow>
      handle_key (key inp) (s\<lparr>frame := frame s + 1\<rparr>) = Inr (Some s') \<and> paused s' \<and>
      effs = [Getch] \<and> found s' = found s) \<and>
   (handle_key (key inp2) (sa\<lparr>frame := frame sa + 1\<rparr>) = Inr (Some s2) \<and> \<not> paused s2 \<and>
    update_phase cm wl h w s2 inp2 = Inr (s3, effs3) \<and> TARGET_COUNT \<le> length (found s3) \<longrightarrow>
      tick cm wl h w sa inp2 = EndScreen s3 (Getch # effs3)) \<and>
   (main_init h w t0 sp = Inr s0 \<and> run cm wl h w s0 inps = Continue s4 effs4 \<longrightarrow>
      length (found s4) < TARGET_COUNT)"
proof -
  have 1: "handle_key (key inp) (s\<lparr>frame := frame s + 1\<rparr>) = Inr (Some s') \<and> paused s' \<and>
      effs = [Getch] \<and> found s' = found s"
    if a: "TARGET_COUNT \<le> length (found s) \<and> tick cm wl h w s inp = Continue s' effs"
  proof (cases rule: tick_cases [of cm wl h w s inp])
    case (paused s2)
    then show ?thesis using a handle_key_fields(3) [OF paused(1)] by auto
  next
    case (go s2 s3 effs3)
    from update_phase_result [OF go(3)] handle_key_fields(3) [OF go(1)]
    have "length (found s) \<le> length (found s3)" by simp
    then show ?thesis using a go(4) by simp
  qed (use a in auto)
  have 2: "tick cm wl h w sa inp2 = EndScreen s3 (Getch # effs3)"
    if "handle_key (key inp2) (sa\<lparr>frame := frame sa + 1\<rparr>) = Inr (Some s2) \<and> \<not> paused s2 \<and>
      update_phase cm wl h w s2 inp2 = Inr (s3, effs3) \<and> TARGET_COUNT \<le> length (found s3)"
    using that tick_unpaused [of inp2 sa s2 cm wl h w s3 effs3] by simp
  have 3: "length (found s4) < TARGET_COUNT"
    if a: "main_init h w t0 sp = Inr s0 \<and> run cm wl h w s0 inps = Continue s4 effs4"
  proof -
    have "length (found s0) < TARGET_COUNT"
      using a main_init_fields(1) [of h w t0 sp s0] by (simp add: TARGET_COUNT_def)
    with a show ?thesis using run_continue_below_target by blast
  qed
  from 1 2 3 show ?thesis by blast
qed

lemma run_paused:
  assumes "paused s" and
    "\<forall>i \<in> set inps. key i = - 1 \<or> (0 \<le> key i \<and> key i \<le> 1114111 \<and> key i \<noteq> 112 \<and> key i \<noteq> 113)"
  shows "\<exists>s'. run cm wl h w s inps = Continue s' (replicate (length inps) Getch) \<and>
           drops s' = drops s \<and> clusters s' = clusters s \<and> found s' = found s \<and> paused s' \<and>
           start s' = start s \<and> spin s' = spin s \<and> frame s' = frame s + int (length inps)"
  using assms
proof (induction inps arbitrary: s)
  case Nil
  then show ?case by simp
next
  case (Cons i ins)
  from Cons.prems(2) have k: "key i = - 1 \<or> (0 \<le> key i \<and> key i \<le> 1114111 \<and> key i \<noteq> 112 \<and> key i \<noteq> 113)"
    by simp
  from handle_key_idle [OF k, of "s\<lparr>frame := frame s + 1\<rparr>"] obtain s2 where
    hk: "handle_key (key i) (s\<lparr>frame := frame s + 1\<rparr>) = Inr (Some s2)" and
    p2: "paused s2" using Cons.prems(1) by auto
  have t: "tick cm wl h w s i = Continue s2 [Getch]" by (rule tick_paused [OF hk p2])
  from Cons.prems(2) have rest: "\<forall>i \<in> set ins. key i = - 1 \<or>
      (0 \<le> key i \<and> key i \<le> 1114111 \<and> key i \<noteq> 112 \<and> key i \<noteq> 113)" by simp
  from Cons.IH [OF p2 rest] obtain s' where
    r: "run cm wl h w s2 ins = Continue s' (replicate (length ins) Getch)" and
    f: "drops s' = drops s2" "clusters s' = clusters s2" "found s' = found s2" "paused s'"
       "start s' = start s2" "spin s' = spin s2" "frame s' = frame s2 + int (length ins)"
    by blast
  have "run cm wl h w s (i # ins) = Continue s' (replicate (length (i # ins)) Getch)"
    using t r by simp
  moreover have "drops s' = drops s" "clusters s' = clusters s" "found s' = found s"
    "start s' = start s" "spin s' = spin s" "frame s' = frame s + int (length (i # ins))"
    using f handle_key_fields [OF hk] by simp_all
  ultimately show ?case using f(4) by blast
qed

theorem paused_tick_freezes_entities:
  "(handle_key (key inp) (s\<lparr>frame := frame s + 1\<rparr>) = Inr (Some s2) \<and> paused s2 \<longrightarrow>
      tick cm wl h w s inp = Continue s2 [Getch] \<and>
      drops s2 = drops s \<and> clusters s2 = clusters s \<and> found s2 = found s) \<and>
   (key inq = 113 \<longrightarrow>
      tick cm wl h w sq inq = EndScreen (sq\<lparr>frame := frame sq + 1\<rparr>) [Getch]) \<and>
   (paused sp \<and>
    (\<forall>i \<in> set inps. key i = - 1 \<or>
       (0 \<le> key i \<and> key i \<le> 1114111 \<and> key i \<noteq> 112 \<and> key i \<noteq> 113)) \<longrightarrow>
      (\<exists>s'. run cm wl h w sp inps = Continue s' (replicate (length inps) Getch) \<and>
         drops s' = drops sp \<and> clusters s' = clusters sp \<and> found s' = found sp \<and> paused s' \<and>
         start s' = start sp \<and> spin s' = spin sp \<and> frame s' = frame sp + int (length inps)))"
proof -
  have 1: "tick cm wl h w s inp = Continue s2 [Getch] \<and>
      drops s2 = drops s \<and> clusters s2 = clusters s \<and> found s2 = found s"
    if a: "handle_key (key inp) (s\<lparr>frame := frame s + 1\<rparr>) = Inr (Some s2) \<and> paused s2"
  proof -
    have "tick cm wl h w s inp = Continue s2 [Getch]" using a tick_paused by blast
    moreover from a have "drops s2 = drops s" "clusters s2 = clusters s" "found s2 = found s"
      using handle_key_fields [of "key inp" "s\<lparr>frame := frame s + 1\<rparr>" s2] by simp_all
    ultimately show ?thesis by simp
  qed
  have 2: "tick cm wl h w sq inq = EndScreen (sq\<lparr>frame := frame sq + 1\<rparr>) [Getch]"
    if "key inq = 113" using that by (rule tick_quit)
  have 3: "\<exists>s'. run cm wl h w sp inps = Continue s' (replicate (length inps) Getch) \<and>
         drops s' = drops sp \<and> clusters s' = clusters sp \<and> found s' = found sp \<and> paused s' \<and>
         start s' = start sp \<and> spin s' = spin sp \<and> frame s' = frame sp + int (length inps)"
    if "paused sp \<and>
      (\<forall>i \<in> set inps. key i = - 1 \<or>
         (0 \<le> key i \<and> key i \<le> 1114111 \<and> key i \<noteq> 112 \<and> key i \<noteq> 113))"
    using that run_paused [of sp inps cm wl h w] by blast
  from 1 2 3 show ?thesis by blast
qed

lemma tick_continue_delay:
  assumes "tick cm wl h w s inp = Continue s' effs" and "key inp = 45"
  shows "delay s' = fadd (delay s) (py_float (1 / 100))"
proof (cases rule: tick_cases [of cm wl h w s inp])
  case (paused s2)
  then show ?thesis using assms by (auto simp: handle_key_slow)
next
  case (go s2 s3 effs3)
  from update_phase_result [OF go(3)] have "delay s3 = delay s2" by simp
  then show ?thesis using go assms by (auto simp: handle_key_slow)
qed (use assms in auto)

lemma run_slow_downs:
  assumes "run cm wl h w s inps = Continue s' effs" and "\<forall>i \<in> set inps. key i = 45"
  shows "delay s' = ((\<lambda>d. fadd d (py_float (1 / 100))) ^^ length inps) (delay s)"
  using assms
proof (induction inps arbitrary: s effs)
  case Nil
  then show ?case by simp
next
  case (Cons i ins)
  from Cons.prems(1) obtain s1 e1 e2 where
    t: "tick cm wl h w s i = Continue s1 e1" and r: "run cm wl h w s1 ins = Continue s' e2"
    by (auto split: outcome.splits)
  have "delay s1 = fadd (delay s) (py_float (1 / 100))"
    using tick_continue_delay [OF t] Cons.prems(2) by simp
  moreover have "delay s' = ((\<lambda>d. fadd d (py_float (1 / 100))) ^^ length ins) (delay s1)"
    using Cons.IH [OF r] Cons.prems(2) by simp
  ultimately show ?case unfolding length_Cons funpow_Suc_right o_apply by simp
qed

lemma ten_additions_flat:
  "fadd (fadd (fadd (fadd (fadd (fadd (fadd (fadd (fadd (fadd (py_float (5 / 100))
     (py_float (1 / 100))) (py_float (1 / 100))) (py_float (1 / 100))) (py_float (1 / 100)))
     (py_float (1 / 100))) (py_float (1 / 100))) (py_float (1 / 100))) (py_float (1 / 100)))
     (py_float (1 / 100))) (py_float (1 / 100)) = py_float (15 / 100)"
  by (simp add: float_eval model_eval)

lemma ten_additions:
  "((\<lambda>d. fadd d (py_float (1 / 100))) ^^ 10) (py_float (5 / 100)) = py_float (15 / 100)"
  using ten_additions_flat by (simp add: eval_nat_numeral)

theorem ten_slow_downs:
  assumes "delay s = py_float (5 / 100)" and "length inps = 10" and "\<forall>i \<in> set inps. key i = 45"
    and "run cm wl h w s inps = Continue s' effs"
  shows "delay s' = py_float (15 / 100)"
  using run_slow_downs [OF assms(4) assms(3)] assms(1,2) ten_additions by simp

theorem ten_slow_downs_witness:
  "delay \<lparr>drops = [], clusters = [], found = [], start = 0, frame = 0, spin = 0,
           delay = py_float (5 / 100), paused = True\<rparr> = py_float (5 / 100) \<and>
   length (replicate 10 \<lparr>key = 45, now = 0, new_drop = None, morphs = []\<rparr>) = 10 \<and>
   list_all (\<lambda>i. key i = 45) (replicate 10 \<lparr>key = 45, now = 0, new_drop = None, morphs = []\<rparr>) \<and>
   run (stdlib_curses 80 24) [] 24 80
     \<lparr>drops = [], clusters = [], found = [], start = 0, frame = 0, spin = 0,
        delay = py_float (5 / 100), paused = True\<rparr>
     (replicate 10 \<lparr>key = 45, now = 0, new_drop = None, morphs = []\<rparr>) =
   Continue \<lparr>drops = [], clusters = [], found = [], start = 0, frame = 10, spin = 0,
              delay = py_float (15 / 100), paused = True\<rparr> (replicate 10 Getch) \<and>
   delay \<lparr>drops = [], clusters = [], found = [], start = 0, frame = 10, spin = 0,
           delay = py_float (15 / 100), paused = True\<rparr> = py_float (15 / 100)"
proof -
  let ?s = "\<lparr>drops = [], clusters = [], found = [], start = 0, frame = 0, spin = 0,
           delay = py_float (5 / 100), paused = True\<rparr>"
  let ?i = "\<lparr>key = 45, now = 0, new_drop = None, morphs = []\<rparr>"
  let ?s' = "\<lparr>drops = [], clusters = [], found = [], start = 0, frame = 10, spin = 0,
              delay = py_float (15 / 100), paused = True\<rparr>"
  have 1: "delay ?s = py_float (5 / 100)" by simp
  have 2: "length (replicate 10 ?i) = 10" by simp
  have 3: "\<forall>i \<in> set (replicate 10 ?i). key i = 45" by simp
  have 4: "run (stdlib_curses 80 24) [] 24 80 ?s (replicate 10 ?i) = Continue ?s' (replicate 10 Getch)"
    by (simp add: float_eval model_eval)
  from ten_slow_downs [OF 1 2 3 4] have "delay ?s' = py_float (15 / 100)" .
  then show ?thesis using 1 2 3 4 by (simp add: list_all_iff)
qed

lemma count_list_distinct: "distinct xs \<Longrightarrow> count_list xs x = (if x \<in> set xs then 1 else 0)"
  by (induction xs) auto

lemma count_list_notin: "x \<notin> set xs \<Longrightarrow> count_list xs x = 0"
  by simp

lemma run_found:
  assumes "run cm wl h wd s inps = Continue s' effs \<or> run cm wl h wd s inps = EndScreen s' effs"
  shows "found s' = found s @ logged effs \<and> (distinct (found s) \<longrightarrow> distinct (found s'))"
  using assms
proof (induction inps arbitrary: s effs)
  case Nil
  then show ?case by simp
next
  case (Cons i ins)
  show ?case
  proof (cases "tick cm wl h wd s i")
    case (Continue s1 e1)
    with Cons.prems obtain e2 where
      r: "run cm wl h wd s1 ins = Continue s' e2 \<or> run cm wl h wd s1 ins = EndScreen s' e2"
      and e: "effs = e1 @ e2"
      by (auto split: outcome.splits)
    from tick_found [of cm wl h wd s i s1 e1] Continue
    have 1: "found s1 = found s @ logged e1 \<and> (distinct (found s) \<longrightarrow> distinct (found s1))"
      by blast
    from Cons.IH [OF r] have 2: "found s' = found s1 @ logged e2 \<and>
      (distinct (found s1) \<longrightarrow> distinct (found s'))" .
    have "found s' = found s @ logged effs" using 1 2 e by simp
    moreover have "distinct (found s) \<longrightarrow> distinct (found s')" using 1 2 by blast
    ultimately show ?thesis by blast
  next
    case (EndScreen s1 e1)
    with Cons.prems have "s' = s1" "effs = e1" by simp_all
    then show ?thesis using tick_found [of cm wl h wd s i s1 e1] EndScreen by blast
  next
    case (Raised e)
    then show ?thesis using Cons.prems by simp
  qed
qed

theorem detect_claims_every_word:
  assumes "[] \<notin> set wl"
  shows "\<exists>new cs effs.
           detect wl pr cols rows fnd cls = Inr (fnd @ new, cls @ cs, effs) \<and>
           set new = {w \<in> set wl. substring_in w pr \<and> w \<notin> set fnd} \<and>
           distinct new \<and> subseq new wl \<and> map spells cs = new \<and> logged effs = new"
proof -
  from detect_total [OF assms] obtain f cl e where
    d: "detect wl pr cols rows fnd cls = Inr (f, cl, e)" by blast
  from detect_result [OF d] obtain new cs where
    "f = fnd @ new" "cl = cls @ cs" "map spells cs = new" "logged e = new" "distinct new"
    "subseq new wl" "set new = {w \<in> set wl. substring_in w pr \<and> w \<notin> set fnd}"
    by blast
  then have "detect wl pr cols rows fnd cls = Inr (fnd @ new, cls @ cs, e) \<and>
           set new = {w \<in> set wl. substring_in w pr \<and> w \<notin> set fnd} \<and>
           distinct new \<and> subseq new wl \<and> map spells cs = new \<and> logged e = new"
    using d by simp
  then show ?thesis by (intro exI [of _ new] exI [of _ cs] exI [of _ e])
qed

theorem word_claimed_at_most_once:
  "(detect wl pr cols rows fnd cls = Inr (fnd', cls', effs) \<and> distinct fnd \<longrightarrow>
      distinct fnd' \<and>
      (v \<in> set fnd \<longrightarrow>
         count_list fnd' v = 1 \<and> count_list (logged effs) v = 0 \<and>
         count_list (map spells (drop (length cls) cls')) v = 0) \<and>
      (u \<notin> set fnd \<and> u \<in> set wl \<and> substring_in u pr \<longrightarrow>
         count_list fnd' u = 1 \<and> count_list (logged effs) u = 1 \<and>
         count_list (map spells (drop (length cls) cls')) u = 1)) \<and>
   (main_init h wd t0 sp = Inr s0 \<and>
    (run cm wl2 h wd s0 inps = Continue s' effs' \<or> run cm wl2 h wd s0 inps = EndScreen s' effs')
      \<longrightarrow> distinct (found s') \<and> found s' = logged effs')"
proof -
  have 1: "distinct fnd' \<and>
      (v \<in> set fnd \<longrightarrow>
         count_list fnd' v = 1 \<and> count_list (logged effs) v = 0 \<and>
         count_list (map spells (drop (length cls) cls')) v = 0) \<and>
      (u \<notin> set fnd \<and> u \<in> set wl \<and> substring_in u pr \<longrightarrow>
         count_list fnd' u = 1 \<and> count_list (logged effs) u = 1 \<and>
         count_list (map spells (drop (length cls) cls')) u = 1)"
    if a: "detect wl pr cols rows fnd cls = Inr (fnd', cls', effs) \<and> distinct fnd"
  proof -
    from a have d: "detect wl pr cols rows fnd cls = Inr (fnd', cls', effs)" and df: "distinct fnd"
      by simp_all
    from detect_result [OF d] obtain new cs where
      n: "fnd' = fnd @ new" "cls' = cls @ cs" "map spells cs = new" "logged effs = new"
         "distinct new" "set new = {w \<in> set wl. substring_in w pr \<and> w \<notin> set fnd}"
      by blast
    have dd: "distinct fnd'" using detect_distinct [OF d df] .
    have dr: "map spells (drop (length cls) cls') = new" using n(2,3) by simp
    have old: "count_list fnd' v = 1 \<and> count_list (logged effs) v = 0 \<and>
         count_list (map spells (drop (length cls) cls')) v = 0" if "v \<in> set fnd"
    proof -
      have "v \<notin> set new" using n(6) that by simp
      then have "count_list new v = 0" by (rule count_list_notin)
      moreover have "count_list fnd v = 1" using df that by (simp add: count_list_distinct)
      ultimately show ?thesis unfolding dr n(4) n(1) by simp
    qed
    have fresh: "count_list fnd' u = 1 \<and> count_list (logged effs) u = 1 \<and>
         count_list (map spells (drop (length cls) cls')) u = 1"
      if "u \<notin> set fnd \<and> u \<in> set wl \<and> substring_in u pr"
    proof -
      have "u \<in> set new" using n(6) that by simp
      then have "count_list new u = 1" using n(5) by (simp add: count_list_distinct)
      moreover have "count_list fnd u = 0" using that by simp
      ultimately show ?thesis unfolding dr n(4) n(1) by simp
    qed
    from dd old fresh show ?thesis by blast
  qed
  have 2: "distinct (found s') \<and> found s' = logged effs'"
    if a: "main_init h wd t0 sp = Inr s0 \<and>
      (run cm wl2 h wd s0 inps = Continue s' effs' \<or> run cm wl2 h wd s0 inps = EndScreen s' effs')"
  proof -
    from a have e: "found s0 = []" using main_init_fields(1) by blast
    from a have r: "found s' = found s0 @ logged effs' \<and>
        (distinct (found s0) \<longrightarrow> distinct (found s'))"
      using run_found [of cm wl2 h wd s0 inps s' effs'] by blast
    have "distinct (found s')" using r e by (metis distinct.simps(1))
    moreover have "found s' = logged effs'" using r e by (metis append_Nil)
    ultimately show ?thesis by blast
  qed
  from 1 2 show ?thesis by blast
qed

end
